theory Spec2Isabelle
  imports Main "HOL-Library.AList" "HOL-Library.Sublist"
begin

section \<open>Data model of dynamodb_batching.py\<close>

text \<open>
  Items and keys are Python dictionaries from attribute names to values; the values are
  opaque to the program, so their type is a parameter. Dictionaries that the program
  iterates over are association lists in insertion order; a well-formed dictionary has
  distinct keys.
\<close>

type_synonym 'v item = "(string \<times> 'v) list"

text \<open>One entry of a batch-get request: the dictionary \<^verbatim>\<open>{'Keys': [...]}\<close>. Reading
  \<^verbatim>\<open>batch_key['Keys']\<close> raises KeyError when the entry is absent.\<close>

record 'v keys_and_attributes =
  Keys :: "'v item list option"

type_synonym 'v request = "(string \<times> 'v keys_and_attributes) list"

type_synonym 'v retrieved = "(string \<times> 'v item list) list"

text \<open>The dictionary returned by \<^verbatim>\<open>batch_get_item\<close>. Either entry may be missing.\<close>

record 'v response =
  Responses :: "'v retrieved option"
  UnprocessedKeys :: "'v request option"

text \<open>Exceptions of the program. A \<^verbatim>\<open>ClientError\<close> carries
  \<^verbatim>\<open>error.response['Error']['Code']\<close>.\<close>

datatype error = ClientError string | KeyError | IndexError

text \<open>The schema entries handed to \<^verbatim>\<open>create_table\<close> and the table resource of the SDK.\<close>

record schema_item =
  sname :: string
  skey_type :: string
  stype :: string

record throughput =
  ReadCapacityUnits :: nat
  WriteCapacityUnits :: nat

record table =
  name :: string
  key_schema :: "(string \<times> string) list"
  attribute_definitions :: "(string \<times> string) list"
  provisioned_throughput :: throughput

record table_spec =
  TableName :: string
  KeySchema :: "(string \<times> string) list"
  AttributeDefinitions :: "(string \<times> string) list"
  ProvisionedThroughput :: throughput

text \<open>
  The vendor SDK is an opaque dependency: every call takes the state of the outside world
  and returns either the error code of a \<^verbatim>\<open>ClientError\<close> or its result, with the new
  state. \<open>writer_put_item\<close>, \<open>writer_delete_item\<close> and \<open>writer_exit\<close> are the methods of the
  context-managed batch writer of a table (\<open>writer_exit\<close> is its \<^verbatim>\<open>__exit__\<close>).
  Exceptions of the SDK of another class than \<^verbatim>\<open>ClientError\<close> (a waiter that gives up,
  a parameter that fails validation before the request is sent) are outside the model.
\<close>

record ('w, 'v) sdk =
  sdk_create_table :: "table_spec \<Rightarrow> 'w \<Rightarrow> (string + table) \<times> 'w"
  wait_until_exists :: "table \<Rightarrow> 'w \<Rightarrow> string option \<times> 'w"
  batch_get_item :: "'v request \<Rightarrow> 'w \<Rightarrow> (string + 'v response) \<times> 'w"
  writer_put_item :: "table \<Rightarrow> 'v item \<Rightarrow> 'w \<Rightarrow> string option \<times> 'w"
  writer_delete_item :: "table \<Rightarrow> 'v item \<Rightarrow> 'w \<Rightarrow> string option \<times> 'w"
  writer_exit :: "table \<Rightarrow> 'w \<Rightarrow> string option \<times> 'w"

text \<open>
  What the program does to the outside world, in the order it does it: the SDK calls with
  their outcome, the sleeps, and the calls of the logger (format string and arguments).
  The \<^verbatim>\<open>print\<close> statements are left out.
\<close>

datatype log_arg = Str string | Num nat

datatype 'v event =
    CreateTable table_spec "string + table"
  | WaitUntilExists table "string option"
  | BatchGetItem "'v request" "string + 'v response"
  | PutItem table "'v item" "string option"
  | DeleteItem table "'v item" "string option"
  | WriterExit table "string option"
  | Sleep nat
  | LogInfo string "log_arg list"
  | LogException string "log_arg list"

record ('w, 'v) run_state =
  world :: 'w
  trace :: "'v event list"

definition emit :: "'v event \<Rightarrow> ('w, 'v) run_state \<Rightarrow> ('w, 'v) run_state" where
  "emit e s = s\<lparr>trace := trace s @ [e]\<rparr>"

section \<open>do_batch_get\<close>


definition max_tries :: nat where
  "max_tries = 5"

text \<open>\<^verbatim>\<open>retrieved = {key: [] for key in batch_keys}\<close>\<close>

definition init_retrieved :: "'v request \<Rightarrow> 'v retrieved" where
  "init_retrieved batch_keys = map (\<lambda>(key, _). (key, [])) batch_keys"

text \<open>
  \<^verbatim>\<open>for key in response.get('Responses', []): retrieved[key] += response['Responses'][key]\<close>
  over the keys still to visit. Both subscripts raise KeyError on a missing key.
\<close>

fun collect :: "string list \<Rightarrow> 'v retrieved \<Rightarrow> 'v retrieved \<Rightarrow> error + 'v retrieved" where
  "collect [] responses retrieved = Inr retrieved"
| "collect (key # keys) responses retrieved =
     (case map_of retrieved key of
        None \<Rightarrow> Inl KeyError
      | Some got \<Rightarrow>
          (case map_of responses key of
             None \<Rightarrow> Inl KeyError
           | Some items \<Rightarrow> collect keys responses (AList.update key (got @ items) retrieved)))"

definition collect_responses :: "'v response \<Rightarrow> 'v retrieved \<Rightarrow> error + 'v retrieved" where
  "collect_responses response retrieved =
     (case Responses response of
        None \<Rightarrow> Inr retrieved
      | Some responses \<Rightarrow> collect (map fst responses) responses retrieved)"

text \<open>\<^verbatim>\<open>sum([len(batch_key['Keys']) for batch_key in batch_keys.values()])\<close>\<close>

fun unprocessed_count :: "'v request \<Rightarrow> error + nat" where
  "unprocessed_count [] = Inr 0"
| "unprocessed_count ((_, batch_key) # rest) =
     (case Keys batch_key of
        None \<Rightarrow> Inl KeyError
      | Some ks \<Rightarrow>
          (case unprocessed_count rest of
             Inl e \<Rightarrow> Inl e
           | Inr n \<Rightarrow> Inr (length ks + n)))"

text \<open>
  One pass through the body of the \<^verbatim>\<open>while\<close> loop. It ends in \<^verbatim>\<open>break\<close>, in an
  exception, or at the end of the body with new values of \<^verbatim>\<open>tries\<close>,
  \<^verbatim>\<open>sleepy_time\<close>, \<^verbatim>\<open>batch_keys\<close> and \<^verbatim>\<open>retrieved\<close>.
\<close>

datatype 'v step =
    Break "'v retrieved"
  | Raise error
  | Continue nat nat "'v request" "'v retrieved"

definition attempt ::
  "('w, 'v) sdk \<Rightarrow> nat \<Rightarrow> nat \<Rightarrow> 'v request \<Rightarrow> 'v retrieved \<Rightarrow> ('w, 'v) run_state
     \<Rightarrow> 'v step \<times> ('w, 'v) run_state" where
  "attempt api tries sleepy_time batch_keys retrieved s =
     (case batch_get_item api batch_keys (world s) of
        (outcome, w) \<Rightarrow>
          (let s1 = emit (BatchGetItem batch_keys outcome) (s\<lparr>world := w\<rparr>) in
           case outcome of
             Inl code \<Rightarrow> (Raise (ClientError code), s1)
           | Inr response \<Rightarrow>
               (case collect_responses response retrieved of
                  Inl e \<Rightarrow> (Raise e, s1)
                | Inr retrieved' \<Rightarrow>
                    (case UnprocessedKeys response of
                       None \<Rightarrow> (Raise KeyError, s1)
                     | Some unprocessed \<Rightarrow>
                         if length unprocessed > 0 then
                           (case unprocessed_count unprocessed of
                              Inl e \<Rightarrow> (Raise e, s1)
                            | Inr n \<Rightarrow>
                                (let s2 = emit (LogInfo ''%s unprocessed keys returned. Sleep, then retry.'' [Num n]) s1;
                                     tries' = tries + 1
                                 in if tries' < max_tries then
                                      (Continue tries' (min (sleepy_time * 2) 32) unprocessed retrieved',
                                       emit (Sleep sleepy_time)
                                         (emit (LogInfo ''Sleeping for %s seconds.'' [Num sleepy_time]) s2))
                                    else (Continue tries' sleepy_time unprocessed retrieved', s2)))
                         else (Break retrieved', s1)))))"

lemma attempt_tries:
  "attempt api tries sleepy_time batch_keys retrieved s = (Continue tries' st' bk' r', s')
     \<Longrightarrow> tries' = Suc tries"
  by (auto simp: attempt_def Let_def split: prod.splits sum.splits option.splits if_splits)

function do_batch_get_loop ::
  "('w, 'v) sdk \<Rightarrow> nat \<Rightarrow> nat \<Rightarrow> 'v request \<Rightarrow> 'v retrieved \<Rightarrow> ('w, 'v) run_state
     \<Rightarrow> (error + 'v retrieved) \<times> ('w, 'v) run_state" where
  "do_batch_get_loop api tries sleepy_time batch_keys retrieved s =
     (if tries < max_tries then
        (case attempt api tries sleepy_time batch_keys retrieved s of
           (Break r, s') \<Rightarrow> (Inr r, s')
         | (Raise e, s') \<Rightarrow> (Inl e, s')
         | (Continue tries' sleepy_time' batch_keys' retrieved', s') \<Rightarrow>
             do_batch_get_loop api tries' sleepy_time' batch_keys' retrieved' s')
      else (Inr retrieved, s))"
  by pat_completeness auto
termination
  by (relation "measure (\<lambda>(api, tries, _). max_tries - tries)")
     (auto dest: attempt_tries [OF sym])

definition do_batch_get ::
  "('w, 'v) sdk \<Rightarrow> 'v request \<Rightarrow> ('w, 'v) run_state \<Rightarrow> (error + 'v retrieved) \<times> ('w, 'v) run_state" where
  "do_batch_get api batch_keys s = do_batch_get_loop api 0 1 batch_keys (init_retrieved batch_keys) s"

section \<open>The operations around the SDK\<close>

text \<open>An SDK call: it changes the world and is recorded in the trace with its outcome.\<close>

definition sdk_call ::
  "('w \<Rightarrow> 'r \<times> 'w) \<Rightarrow> ('r \<Rightarrow> 'v event) \<Rightarrow> ('w, 'v) run_state \<Rightarrow> 'r \<times> ('w, 'v) run_state" where
  "sdk_call f ev s = (case f (world s) of (r, w) \<Rightarrow> (r, emit (ev r) (s\<lparr>world := w\<rparr>)))"

text \<open>Sequencing: an exception ends the block, a result goes on to the next statement.\<close>

definition and_then ::
  "(error + 'a) \<times> ('w, 'v) run_state \<Rightarrow> ('a \<Rightarrow> ('w, 'v) run_state \<Rightarrow> (error + 'b) \<times> ('w, 'v) run_state)
     \<Rightarrow> (error + 'b) \<times> ('w, 'v) run_state" where
  "and_then r f = (case r of (Inl e, s) \<Rightarrow> (Inl e, s) | (Inr x, s) \<Rightarrow> f x s)"

text \<open>
  The handler \<^verbatim>\<open>except ClientError: logger.exception(msg, *args); raise\<close> applied to the
  outcome of its \<^verbatim>\<open>try\<close> block. Other exceptions pass through untouched.
\<close>

definition reraise_logged ::
  "string \<Rightarrow> log_arg list \<Rightarrow> (error + 'a) \<times> ('w, 'v) run_state
     \<Rightarrow> (error + 'a) \<times> ('w, 'v) run_state" where
  "reraise_logged msg args r =
     (case r of
        (Inl (ClientError code), s) \<Rightarrow> (Inl (ClientError code), emit (LogException msg args) s)
      | _ \<Rightarrow> r)"

subsection \<open>create_table\<close>

definition create_table ::
  "('w, 'v) sdk \<Rightarrow> string \<Rightarrow> schema_item list \<Rightarrow> ('w, 'v) run_state
     \<Rightarrow> (error + table) \<times> ('w, 'v) run_state" where
  "create_table api table_name schema s =
     reraise_logged ''Couldn't create TimeSeries table.'' []
       (let spec = \<lparr>TableName = table_name,
                    KeySchema = map (\<lambda>item. (sname item, skey_type item)) schema,
                    AttributeDefinitions = map (\<lambda>item. (sname item, stype item)) schema,
                    ProvisionedThroughput = \<lparr>ReadCapacityUnits = 10, WriteCapacityUnits = 10\<rparr>\<rparr>
        in case sdk_call (sdk_create_table api spec) (CreateTable spec) s of
             (Inl code, s1) \<Rightarrow> (Inl (ClientError code), s1)
           | (Inr table, s1) \<Rightarrow>
               (case sdk_call (wait_until_exists api table) (WaitUntilExists table) s1 of
                  (Some code, s2) \<Rightarrow> (Inl (ClientError code), s2)
                | (None, s2) \<Rightarrow>
                    (Inr table, emit (LogInfo ''Created table %s.'' [Str (name table)]) s2)))"

subsection \<open>The batch writer\<close>

text \<open>\<^verbatim>\<open>for item in table_data: writer.put_item(Item=item)\<close>\<close>

fun put_items ::
  "('w, 'v) sdk \<Rightarrow> table \<Rightarrow> 'v item list \<Rightarrow> ('w, 'v) run_state
     \<Rightarrow> (error + unit) \<times> ('w, 'v) run_state" where
  "put_items api table [] s = (Inr (), s)"
| "put_items api table (item # items) s =
     (case sdk_call (writer_put_item api table item) (PutItem table item) s of
        (Some code, s') \<Rightarrow> (Inl (ClientError code), s')
      | (None, s') \<Rightarrow> put_items api table items s')"

text \<open>
  \<^verbatim>\<open>for item in trade_data: trade_writer.delete_item(Key={'notional': item['notional']})\<close>;
  the subscript raises KeyError on an item without that attribute.
\<close>

fun delete_items ::
  "('w, 'v) sdk \<Rightarrow> table \<Rightarrow> 'v item list \<Rightarrow> ('w, 'v) run_state
     \<Rightarrow> (error + unit) \<times> ('w, 'v) run_state" where
  "delete_items api table [] s = (Inr (), s)"
| "delete_items api table (item # items) s =
     (case map_of item ''notional'' of
        None \<Rightarrow> (Inl KeyError, s)
      | Some v \<Rightarrow>
          (case sdk_call (writer_delete_item api table [(''notional'', v)])
                  (DeleteItem table [(''notional'', v)]) s of
             (Some code, s') \<Rightarrow> (Inl (ClientError code), s')
           | (None, s') \<Rightarrow> delete_items api table items s'))"

text \<open>
  \<^verbatim>\<open>with table.batch_writer() as writer: body\<close>. The writer's \<^verbatim>\<open>__exit__\<close> runs however
  the body ends; an exception it raises replaces the one of the body, and otherwise the
  exception of the body goes on.
\<close>

definition with_batch_writer ::
  "('w, 'v) sdk \<Rightarrow> table \<Rightarrow> (('w, 'v) run_state \<Rightarrow> (error + unit) \<times> ('w, 'v) run_state)
     \<Rightarrow> ('w, 'v) run_state \<Rightarrow> (error + unit) \<times> ('w, 'v) run_state" where
  "with_batch_writer api table body s =
     (case body s of
        (res, s1) \<Rightarrow>
          (case sdk_call (writer_exit api table) (WriterExit table) s1 of
             (Some code, s2) \<Rightarrow> (Inl (ClientError code), s2)
           | (None, s2) \<Rightarrow> (res, s2)))"

subsection \<open>fill_table\<close>

definition fill_table ::
  "('w, 'v) sdk \<Rightarrow> table \<Rightarrow> 'v item list \<Rightarrow> ('w, 'v) run_state
     \<Rightarrow> (error + unit) \<times> ('w, 'v) run_state" where
  "fill_table api table table_data s =
     reraise_logged ''Couldn't load data into table %s.'' [Str (name table)]
       (and_then (with_batch_writer api table (put_items api table table_data) s)
          (\<lambda>_ s'. (Inr (), emit (LogInfo ''Loaded data into table %s.'' [Str (name table)]) s')))"

subsection \<open>get_batch_data\<close>

text \<open>\<^verbatim>\<open>row[i]\<close> for a constant index \<open>i \<ge> 0\<close>: IndexError beyond the end.\<close>

definition subscript :: "'a list \<Rightarrow> nat \<Rightarrow> error + 'a" where
  "subscript row i = (if i < length row then Inr (row ! i) else Inl IndexError)"

text \<open>\<^verbatim>\<open>[{attr: row[i]} for row in rows]\<close>\<close>

fun key_list :: "string \<Rightarrow> nat \<Rightarrow> 'v list list \<Rightarrow> error + 'v item list" where
  "key_list attr i [] = Inr []"
| "key_list attr i (row # rows) =
     (case subscript row i of
        Inl e \<Rightarrow> Inl e
      | Inr v \<Rightarrow>
          (case key_list attr i rows of
             Inl e \<Rightarrow> Inl e
           | Inr ks \<Rightarrow> Inr ([(attr, v)] # ks)))"

text \<open>
  The dictionary display that builds \<^verbatim>\<open>batch_keys\<close>: the three entries are evaluated
  and stored in order, a later entry replacing an earlier one of the same table name.
\<close>

definition build_batch_keys ::
  "table \<Rightarrow> 'v list list \<Rightarrow> table \<Rightarrow> 'v list list \<Rightarrow> table \<Rightarrow> 'v list list
     \<Rightarrow> error + 'v request" where
  "build_batch_keys trade_table trade_list entity_table entity_list aspect_table aspect_list =
     (case key_list ''notional'' 5 trade_list of
        Inl e \<Rightarrow> Inl e
      | Inr trade_keys \<Rightarrow>
          (case key_list ''float_value'' 6 entity_list of
             Inl e \<Rightarrow> Inl e
           | Inr entity_keys \<Rightarrow>
               (case key_list ''float_value'' 6 aspect_list of
                  Inl e \<Rightarrow> Inl e
                | Inr aspect_keys \<Rightarrow>
                    Inr (AList.update (name aspect_table) \<lparr>Keys = Some aspect_keys\<rparr>
                          (AList.update (name entity_table) \<lparr>Keys = Some entity_keys\<rparr>
                            (AList.update (name trade_table) \<lparr>Keys = Some trade_keys\<rparr> []))))))"

text \<open>
  \<^verbatim>\<open>for response_table, response_items in retrieved.items(): logger.info(...)\<close>
\<close>

fun log_counts :: "'v retrieved \<Rightarrow> ('w, 'v) run_state \<Rightarrow> ('w, 'v) run_state" where
  "log_counts [] s = s"
| "log_counts ((response_table, response_items) # rest) s =
     log_counts rest
       (emit (LogInfo ''Got %s items from %s.'' [Num (length response_items), Str response_table]) s)"

definition get_batch_data ::
  "('w, 'v) sdk \<Rightarrow> table \<Rightarrow> 'v list list \<Rightarrow> table \<Rightarrow> 'v list list \<Rightarrow> table \<Rightarrow> 'v list list
     \<Rightarrow> ('w, 'v) run_state \<Rightarrow> (error + 'v retrieved) \<times> ('w, 'v) run_state" where
  "get_batch_data api trade_table trade_list entity_table entity_list aspect_table aspect_list s =
     (case build_batch_keys trade_table trade_list entity_table entity_list aspect_table aspect_list of
        Inl e \<Rightarrow> (Inl e, s)
      | Inr batch_keys \<Rightarrow>
          reraise_logged ''Couldn't get items from %s and %s.''
            [Str (name trade_table), Str (name entity_table), Str (name aspect_table)]
            (and_then (do_batch_get api batch_keys s)
               (\<lambda>retrieved s'. (Inr retrieved, log_counts retrieved s'))))"

subsection \<open>archive_trades\<close>

text \<open>The four \<^verbatim>\<open>try\<close> blocks of \<^verbatim>\<open>archive_trades\<close>, in order.\<close>

definition archive_create ::
  "('w, 'v) sdk \<Rightarrow> table \<Rightarrow> ('w, 'v) run_state \<Rightarrow> (error + table) \<times> ('w, 'v) run_state" where
  "archive_create api trade_table s =
     reraise_logged ''Couldn't create archive table for %s.'' [Str (name trade_table)]
       (let spec = \<lparr>TableName = name trade_table @ ''-archive'',
                    KeySchema = key_schema trade_table,
                    AttributeDefinitions = attribute_definitions trade_table,
                    ProvisionedThroughput =
                      \<lparr>ReadCapacityUnits = ReadCapacityUnits (provisioned_throughput trade_table),
                       WriteCapacityUnits = WriteCapacityUnits (provisioned_throughput trade_table)\<rparr>\<rparr>
        in case sdk_call (sdk_create_table api spec) (CreateTable spec) s of
             (Inl code, s1) \<Rightarrow> (Inl (ClientError code), s1)
           | (Inr archive_table, s1) \<Rightarrow>
               (case sdk_call (wait_until_exists api archive_table) (WaitUntilExists archive_table)
                       (emit (LogInfo ''Table %s created, wait until exists.''
                                [Str (name archive_table)]) s1) of
                  (Some code, s2) \<Rightarrow> (Inl (ClientError code), s2)
                | (None, s2) \<Rightarrow> (Inr archive_table, s2)))"

definition archive_put_duplicates ::
  "('w, 'v) sdk \<Rightarrow> table \<Rightarrow> 'v item list \<Rightarrow> ('w, 'v) run_state
     \<Rightarrow> (error + unit) \<times> ('w, 'v) run_state" where
  "archive_put_duplicates api archive_table trade_data s =
     (case and_then (with_batch_writer api archive_table (put_items api archive_table trade_data) s)
             (\<lambda>_ s'. (Inr (), emit (LogInfo ''Put trades into %s.'' [Str (name archive_table)]) s')) of
        (Inl (ClientError code), s1) \<Rightarrow>
          if code = ''ValidationException'' then
            (Inr (),
             emit (LogInfo
               ''Got expected exception when trying to put duplicate records into the archive table.''
               []) s1)
          else
            (Inl (ClientError code),
             emit (LogException
               ''Got unexpected exception when trying to put duplicate records into the archive table.''
               []) s1)
      | r \<Rightarrow> r)"

definition archive_put ::
  "('w, 'v) sdk \<Rightarrow> table \<Rightarrow> 'v item list \<Rightarrow> ('w, 'v) run_state
     \<Rightarrow> (error + unit) \<times> ('w, 'v) run_state" where
  "archive_put api archive_table trade_data s =
     reraise_logged ''Couldn't put trades into %s.'' [Str (name archive_table)]
       (and_then (with_batch_writer api archive_table (put_items api archive_table trade_data) s)
          (\<lambda>_ s'. (Inr (), emit (LogInfo ''Put trades into %s.'' [Str (name archive_table)]) s')))"

definition archive_delete ::
  "('w, 'v) sdk \<Rightarrow> table \<Rightarrow> 'v item list \<Rightarrow> ('w, 'v) run_state
     \<Rightarrow> (error + unit) \<times> ('w, 'v) run_state" where
  "archive_delete api trade_table trade_data s =
     reraise_logged ''Couldn't delete trades from %s.'' [Str (name trade_table)]
       (and_then (with_batch_writer api trade_table (delete_items api trade_table trade_data) s)
          (\<lambda>_ s'. (Inr (), emit (LogInfo ''Deleted trades from %s.'' [Str (name trade_table)]) s')))"

definition archive_trades ::
  "('w, 'v) sdk \<Rightarrow> table \<Rightarrow> 'v item list \<Rightarrow> ('w, 'v) run_state
     \<Rightarrow> (error + table) \<times> ('w, 'v) run_state" where
  "archive_trades api trade_table trade_data s =
     and_then (archive_create api trade_table s) (\<lambda>archive_table s1.
       and_then (archive_put_duplicates api archive_table trade_data s1) (\<lambda>_ s2.
         and_then (archive_put api archive_table trade_data s2) (\<lambda>_ s3.
           and_then (archive_delete api trade_table trade_data s3) (\<lambda>_ s4.
             (Inr archive_table, s4)))))"

section \<open>Observing a run\<close>

text \<open>
  The events a call adds to the trace, the batch-get requests among them with the outcome
  of each, and the durations slept.
\<close>

definition new_events :: "('w, 'v) run_state \<Rightarrow> ('w, 'v) run_state \<Rightarrow> 'v event list" where
  "new_events s s' = drop (length (trace s)) (trace s')"

fun get_of :: "'v event \<Rightarrow> ('v request \<times> (string + 'v response)) list" where
  "get_of (BatchGetItem rq out) = [(rq, out)]"
| "get_of _ = []"

definition gets :: "'v event list \<Rightarrow> ('v request \<times> (string + 'v response)) list" where
  "gets evs = concat (map get_of evs)"

fun sleep_of :: "'v event \<Rightarrow> nat list" where
  "sleep_of (Sleep n) = [n]"
| "sleep_of _ = []"

definition sleeps :: "'v event list \<Rightarrow> nat list" where
  "sleeps evs = concat (map sleep_of evs)"

text \<open>The events that follow the \<open>n\<close>-th batch-get request of a trace.\<close>

fun after_request :: "nat \<Rightarrow> 'v event list \<Rightarrow> 'v event list" where
  "after_request 0 evs = evs"
| "after_request (Suc n) [] = []"
| "after_request (Suc n) (e # evs) =
     (if get_of e = [] then after_request (Suc n) evs else after_request n evs)"

text \<open>
  The durations that \<^verbatim>\<open>sleepy_time\<close> runs through in \<open>n\<close> sleeps: each is the
  minimum of twice the one before and 32.
\<close>

fun schedule :: "nat \<Rightarrow> nat \<Rightarrow> nat list" where
  "schedule 0 t = []"
| "schedule (Suc n) t = t # schedule n (min (t * 2) 32)"

text \<open>
  What a response says. \<open>names_within\<close>: its \<^verbatim>\<open>Responses\<close> name only the given
  tables. \<open>pending\<close>: the number of unprocessed keys it reports, when it has the entry
  \<^verbatim>\<open>UnprocessedKeys\<close> and each table under it has its \<^verbatim>\<open>Keys\<close>. An outcome is
  well formed when it is a response (no \<^verbatim>\<open>ClientError\<close>) on which both can be read.
\<close>

definition names_within :: "string set \<Rightarrow> 'v response \<Rightarrow> bool" where
  "names_within tables response =
     (case Responses response of None \<Rightarrow> True | Some rs \<Rightarrow> fst ` set rs \<subseteq> tables)"

definition pending :: "'v response \<Rightarrow> nat option" where
  "pending response =
     (case UnprocessedKeys response of
        None \<Rightarrow> None
      | Some u \<Rightarrow> (case unprocessed_count u of Inl _ \<Rightarrow> None | Inr n \<Rightarrow> Some n))"

definition well_formed :: "string set \<Rightarrow> string + 'v response \<Rightarrow> bool" where
  "well_formed tables out =
     (case out of Inl _ \<Rightarrow> False
      | Inr response \<Rightarrow> names_within tables response \<and> pending response \<noteq> None)"

definition reports_unprocessed :: "string + 'v response \<Rightarrow> bool" where
  "reports_unprocessed out =
     (case out of Inl _ \<Rightarrow> False
      | Inr response \<Rightarrow> (case pending response of None \<Rightarrow> False | Some n \<Rightarrow> 0 < n))"

text \<open>
  The items a response carries for one table, and whether its \<^verbatim>\<open>Responses\<close> are a
  dictionary (no table name twice).
\<close>

definition items_for :: "string \<Rightarrow> string + 'v response \<Rightarrow> 'v item list" where
  "items_for t out =
     (case out of
        Inl _ \<Rightarrow> []
      | Inr response \<Rightarrow>
          (case Responses response of
             None \<Rightarrow> []
           | Some rs \<Rightarrow> (case map_of rs t of None \<Rightarrow> [] | Some items \<Rightarrow> items)))"

definition distinct_tables :: "string + 'v response \<Rightarrow> bool" where
  "distinct_tables out =
     (case out of
        Inl _ \<Rightarrow> True
      | Inr response \<Rightarrow>
          (case Responses response of None \<Rightarrow> True | Some rs \<Rightarrow> distinct (map fst rs)))"

text \<open>
  The items that the responses of a run carried for one table, in the order received, and
  the dictionary that holds them for each requested table: what the accumulator
  \<^verbatim>\<open>retrieved\<close> comes to when every response of the run has been merged into it. An
  outcome is complete when it is a response whose \<^verbatim>\<open>UnprocessedKeys\<close> is empty, the
  condition on which the loop ends with \<^verbatim>\<open>break\<close>.
\<close>

definition received :: "string \<Rightarrow> 'v event list \<Rightarrow> 'v item list" where
  "received t evs = concat (map (\<lambda>p. items_for t (snd p)) (gets evs))"

definition accumulator :: "'v request \<Rightarrow> 'v event list \<Rightarrow> 'v retrieved" where
  "accumulator batch_keys evs = map (\<lambda>(t, _). (t, received t evs)) batch_keys"

definition complete :: "string + 'v response \<Rightarrow> bool" where
  "complete out =
     (case out of Inl _ \<Rightarrow> False | Inr response \<Rightarrow> UnprocessedKeys response = Some [])"

section \<open>Concrete runs\<close>

text \<open>
  An SDK for running the functions on concrete inputs: the state of the world is the
  number of SDK calls made so far, call number \<open>n\<close> fails with the code \<open>fails n\<close> if
  there is one, and a batch-get otherwise answers with the \<open>n\<close>-th outcome of a list.
\<close>

definition scripted ::
  "(nat \<Rightarrow> string option) \<Rightarrow> (string + 'v response) list \<Rightarrow> (nat, 'v) sdk" where
  "scripted fails outs =
     \<lparr>sdk_create_table = (\<lambda>spec n.
        (case fails n of
           Some code \<Rightarrow> Inl code
         | None \<Rightarrow> Inr \<lparr>name = TableName spec, key_schema = KeySchema spec,
                        attribute_definitions = AttributeDefinitions spec,
                        provisioned_throughput = ProvisionedThroughput spec\<rparr>,
         Suc n)),
      wait_until_exists = (\<lambda>t n. (fails n, Suc n)),
      batch_get_item = (\<lambda>rq n.
        (case fails n of
           Some code \<Rightarrow> Inl code
         | None \<Rightarrow> if n < length outs then outs ! n else Inl ''InternalServerError'',
         Suc n)),
      writer_put_item = (\<lambda>t i n. (fails n, Suc n)),
      writer_delete_item = (\<lambda>t k n. (fails n, Suc n)),
      writer_exit = (\<lambda>t n. (fails n, Suc n))\<rparr>"

definition never_fails :: "nat \<Rightarrow> string option" where
  "never_fails n = None"

definition start :: "(nat, 'v) run_state" where
  "start = \<lparr>world = 0, trace = []\<rparr>"

definition demo_keys :: "nat request" where
  "demo_keys =
     [(''trades'', \<lparr>Keys = Some [[(''notional'', 1)], [(''notional'', 2)]]\<rparr>),
      (''entities'', \<lparr>Keys = Some [[(''float_value'', 3)]]\<rparr>)]"

definition partial_response :: "nat response" where
  "partial_response =
     \<lparr>Responses = Some [(''entities'', [[(''float_value'', 3)]]), (''trades'', [[(''notional'', 1)]])],
      UnprocessedKeys = Some [(''trades'', \<lparr>Keys = Some [[(''notional'', 2)]]\<rparr>)]\<rparr>"

definition final_response :: "nat response" where
  "final_response =
     \<lparr>Responses = Some [(''trades'', [[(''notional'', 2)]])], UnprocessedKeys = Some []\<rparr>"

definition busy_api :: "(nat, nat) sdk" where
  "busy_api = scripted never_fails (replicate 5 (Inr partial_response))"

definition two_step_api :: "(nat, nat) sdk" where
  "two_step_api = scripted never_fails [Inr partial_response, Inr final_response]"

definition done_response :: "nat response" where
  "done_response =
     \<lparr>Responses = Some [(''entities'', [[(''float_value'', 3)]]),
                         (''trades'', [[(''notional'', 1)], [(''notional'', 2)]])],
      UnprocessedKeys = Some []\<rparr>"

definition done_api :: "(nat, nat) sdk" where
  "done_api = scripted never_fails [Inr done_response]"

definition empty_keys_response :: "nat response" where
  "empty_keys_response =
     \<lparr>Responses = Some [], UnprocessedKeys = Some [(''trades'', \<lparr>Keys = Some []\<rparr>)]\<rparr>"

definition empty_keys_api :: "(nat, nat) sdk" where
  "empty_keys_api = scripted never_fails (replicate 5 (Inr empty_keys_response))"

definition served_response :: "nat response" where
  "served_response =
     \<lparr>Responses = Some [(''trades'', replicate 5 [(''notional'', 1)]),
                         (''entities'', replicate 5 [(''float_value'', 3)])],
      UnprocessedKeys = Some []\<rparr>"

definition served_api :: "(nat, nat) sdk" where
  "served_api = scripted never_fails [Inr served_response]"

definition truncated_response :: "nat response" where
  "truncated_response = \<lparr>Responses = None, UnprocessedKeys = None\<rparr>"

definition truncated_api :: "(nat, nat) sdk" where
  "truncated_api = scripted never_fails [Inr truncated_response]"

text \<open>A table with one hash key.\<close>

definition demo_table :: "string \<Rightarrow> string \<Rightarrow> table" where
  "demo_table table_name key =
     \<lparr>name = table_name, key_schema = [(key, ''HASH'')], attribute_definitions = [(key, ''S'')],
      provisioned_throughput = \<lparr>ReadCapacityUnits = 10, WriteCapacityUnits = 10\<rparr>\<rparr>"

section \<open>Observing errors\<close>

text \<open>
  The error code with which an SDK call recorded in the trace failed, if it failed; the
  codes of all failed calls of a run, in order. The SDK calls of a run are its events
  other than the log lines.
\<close>

fun failure_of :: "'v event \<Rightarrow> string list" where
  "failure_of (CreateTable _ (Inl code)) = [code]"
| "failure_of (WaitUntilExists _ (Some code)) = [code]"
| "failure_of (BatchGetItem _ (Inl code)) = [code]"
| "failure_of (PutItem _ _ (Some code)) = [code]"
| "failure_of (DeleteItem _ _ (Some code)) = [code]"
| "failure_of (WriterExit _ (Some code)) = [code]"
| "failure_of _ = []"

definition failures :: "'v event list \<Rightarrow> string list" where
  "failures evs = concat (map failure_of evs)"

fun is_log :: "'v event \<Rightarrow> bool" where
  "is_log (LogInfo _ _) = True"
| "is_log (LogException _ _) = True"
| "is_log _ = False"

definition calls :: "'v event list \<Rightarrow> 'v event list" where
  "calls evs = filter (\<lambda>e. \<not> is_log e) evs"

fun is_log_exception :: "'v event \<Rightarrow> bool" where
  "is_log_exception (LogException _ _) = True"
| "is_log_exception _ = False"

text \<open>A later state extends an earlier one when it has only added events to its trace.\<close>

definition extends :: "('w, 'v) run_state \<Rightarrow> ('w, 'v) run_state \<Rightarrow> bool" where
  "extends s s' = prefix (trace s) (trace s')"

text \<open>
  A result is faithful to the events of a run when it is a \<^verbatim>\<open>ClientError\<close> exactly
  if some SDK call of the run failed, and then carries the code of the last call that
  failed. The error is handled when, in addition, a raised \<^verbatim>\<open>ClientError\<close> was logged
  with \<^verbatim>\<open>logger.exception\<close> as the last thing the run did: caught, logged, raised again.
\<close>

definition faithful :: "error + 'a \<Rightarrow> 'v event list \<Rightarrow> bool" where
  "faithful res evs =
     (case res of
        Inl (ClientError code) \<Rightarrow> failures evs \<noteq> [] \<and> last (failures evs) = code
      | _ \<Rightarrow> failures evs = [])"

definition handled :: "error + 'a \<Rightarrow> 'v event list \<Rightarrow> bool" where
  "handled res evs =
     (faithful res evs \<and>
      (case res of
         Inl (ClientError _) \<Rightarrow> evs \<noteq> [] \<and> is_log_exception (last evs)
       | _ \<Rightarrow> True))"

text \<open>
  The table that \<^verbatim>\<open>archive_trades\<close> asks the SDK to create, and the line it logs
  when it swallows the \<^verbatim>\<open>ValidationException\<close> of its first put loop.
\<close>

definition archive_spec :: "table \<Rightarrow> table_spec" where
  "archive_spec trade_table =
     \<lparr>TableName = name trade_table @ ''-archive'',
      KeySchema = key_schema trade_table,
      AttributeDefinitions = attribute_definitions trade_table,
      ProvisionedThroughput =
        \<lparr>ReadCapacityUnits = ReadCapacityUnits (provisioned_throughput trade_table),
         WriteCapacityUnits = WriteCapacityUnits (provisioned_throughput trade_table)\<rparr>\<rparr>"

definition expected_log :: "'v event" where
  "expected_log =
     LogInfo ''Got expected exception when trying to put duplicate records into the archive table.'' []"

text \<open>
  What the first put loop of \<^verbatim>\<open>archive_trades\<close> does with errors: without a failed call
  it ends normally; when the error is a \<^verbatim>\<open>ValidationException\<close> it ends normally as
  well, its last event being the log line above; any other error is logged with
  \<^verbatim>\<open>logger.exception\<close> and raised again.
\<close>

definition swallowing :: "error + unit \<Rightarrow> 'v event list \<Rightarrow> bool" where
  "swallowing res evs =
     (if failures evs = [] then res = Inr ()
      else if last (failures evs) = ''ValidationException''
        then res = Inr () \<and> last evs = expected_log
        else res = Inl (ClientError (last (failures evs))) \<and> is_log_exception (last evs))"

text \<open>
  Two trades, an SDK whose fourth call fails with \<^verbatim>\<open>ValidationException\<close>, and one
  whose first call fails.
\<close>

definition demo_trades :: "nat item list" where
  "demo_trades = [[(''notional'', 1)], [(''notional'', 2)]]"

definition duplicate_fails :: "nat \<Rightarrow> string option" where
  "duplicate_fails n = (if n = 3 then Some ''ValidationException'' else None)"

definition create_fails :: "nat \<Rightarrow> string option" where
  "create_fails n = (if n = 0 then Some ''ResourceInUseException'' else None)"

section \<open>Lemmas about the retry loop\<close>

lemma sleeps_append [simp]: "sleeps (xs @ ys) = sleeps xs @ sleeps ys"
  by (simp add: sleeps_def)

lemma sleeps_Nil [simp]: "sleeps [] = []"
  by (simp add: sleeps_def)

lemma sleeps_Cons [simp]: "sleeps (e # xs) = sleep_of e @ sleeps xs"
  by (simp add: sleeps_def)

lemma gets_append [simp]: "gets (xs @ ys) = gets xs @ gets ys"
  by (simp add: gets_def)

lemma gets_Nil [simp]: "gets [] = []"
  by (simp add: gets_def)

lemma gets_Cons [simp]: "gets (e # xs) = get_of e @ gets xs"
  by (simp add: gets_def)

lemma new_events_append: "trace s' = trace s @ evs \<Longrightarrow> new_events s s' = evs"
  by (simp add: new_events_def)

lemma after_request_skip:
  "gets rest = [] \<Longrightarrow> after_request (Suc n) (rest @ evs) = after_request (Suc n) evs"
  by (induction rest) auto

subsection \<open>Merging a response into the accumulator\<close>

lemma collect_keys:
  "collect ks rs retr = Inr r \<Longrightarrow> map fst r = map fst retr"
proof (induction ks arbitrary: retr)
  case Nil
  then show ?case by simp
next
  case (Cons k ks)
  from Cons.prems obtain got items where
    g: "map_of retr k = Some got" and
    c: "collect ks rs (AList.update k (got @ items) retr) = Inr r"
    by (auto split: option.splits)
  from g have "k \<in> set (map fst retr)"
    by (metis map_of_eq_None_iff option.distinct(1) set_map)
  with Cons.IH [OF c] show ?case by (simp add: update_keys)
qed

lemma collect_map_of:
  assumes "collect ks rs retr = Inr r" "distinct ks"
  shows "map_of r t =
           (if t \<in> set ks then map_option (\<lambda>v. v @ the (map_of rs t)) (map_of retr t)
            else map_of retr t)"
  using assms
proof (induction ks arbitrary: retr)
  case Nil
  then show ?case by simp
next
  case (Cons k ks)
  from Cons.prems obtain got items where
    g: "map_of retr k = Some got" and i: "map_of rs k = Some items" and
    c: "collect ks rs (AList.update k (got @ items) retr) = Inr r"
    by (auto split: option.splits)
  from Cons.prems have d: "distinct ks" "k \<notin> set ks" by simp_all
  from Cons.IH [OF c d(1)] g i d(2) show ?case
    by (auto simp: update_conv')
qed

lemma collect_ok:
  "set ks \<subseteq> fst ` set rs \<Longrightarrow> set ks \<subseteq> fst ` set retr \<Longrightarrow> \<exists>r. collect ks rs retr = Inr r"
proof (induction ks arbitrary: retr)
  case Nil
  then show ?case by simp
next
  case (Cons k ks)
  from Cons.prems obtain got items where
    g: "map_of retr k = Some got" and i: "map_of rs k = Some items"
    by (metis list.set_intros(1) map_of_eq_None_iff not_None_eq subsetD)
  have "set ks \<subseteq> fst ` set (AList.update k (got @ items) retr)"
    using Cons.prems by (auto simp: dom_update)
  with Cons.IH [of "AList.update k (got @ items) retr"] Cons.prems g i show ?case by simp
qed

lemma collect_responses_ok:
  "names_within (fst ` set retr) response \<Longrightarrow> \<exists>r. collect_responses response retr = Inr r"
  by (auto simp: names_within_def collect_responses_def split: option.splits intro!: collect_ok)

lemma alist_eqI:
  "distinct (map fst xs) \<Longrightarrow> map fst xs = map fst ys \<Longrightarrow> map_of xs = map_of ys \<Longrightarrow> xs = ys"
proof (induction xs arbitrary: ys)
  case Nil
  then show ?case by simp
next
  case (Cons x xs)
  then obtain y ys' where ys: "ys = y # ys'" by (cases ys) auto
  obtain k v where x: "x = (k, v)" by (cases x)
  obtain k' v' where y: "y = (k', v')" by (cases y)
  from Cons.prems ys x y have k: "k' = k" by simp
  from Cons.prems(3) ys x y k have v: "v' = v"
    by (metis fun_upd_same map_of.simps(2) option.inject fst_conv snd_conv)
  have "map_of xs = map_of ys'"
  proof
    fix t
    show "map_of xs t = map_of ys' t"
    proof (cases "t = k")
      case True
      from Cons.prems x have "k \<notin> fst ` set xs" by simp
      moreover from Cons.prems ys x y k have "fst ` set ys' = fst ` set xs"
        by (metis list.inject list.simps(9) set_map)
      ultimately have "map_of xs k = None" "map_of ys' k = None"
        by (simp_all add: map_of_eq_None_iff)
      with True show ?thesis by simp
    next
      case False
      from Cons.prems(3) have "map_of (x # xs) t = map_of ys t" by (rule fun_cong)
      with False ys x y k show ?thesis by simp
    qed
  qed
  with Cons.IH [of ys'] Cons.prems ys x y k v show ?case by simp
qed

subsection \<open>One attempt\<close>

lemma attempt_run:
  assumes "attempt api tries st bk retr s = (stp, s')"
  shows "\<exists>rest. trace s' = trace s @ BatchGetItem bk (fst (batch_get_item api bk (world s))) # rest
           \<and> gets rest = []
           \<and> (case stp of
                 Continue tries' st' bk' retr' \<Rightarrow>
                   tries' = Suc tries \<and>
                   (if Suc tries < max_tries then sleeps rest = [st] \<and> st' = min (st * 2) 32
                    else sleeps rest = [] \<and> st' = st)
               | _ \<Rightarrow> rest = [])"
  using assms
  by (auto simp: attempt_def Let_def emit_def split: prod.splits sum.splits option.splits if_splits)

lemma attempt_keys:
  assumes "attempt api tries st bk retr s = (stp, s')"
  shows "case stp of Break r \<Rightarrow> map fst r = map fst retr
         | Continue _ _ _ r \<Rightarrow> map fst r = map fst retr
         | Raise _ \<Rightarrow> True"
  using assms
  by (auto simp: attempt_def Let_def collect_responses_def
      split: prod.splits sum.splits option.splits if_splits dest: collect_keys)

lemma attempt_raise:
  assumes "attempt api tries st bk retr s = (Raise e, s')"
  shows "\<not> well_formed (fst ` set retr) (fst (batch_get_item api bk (world s)))"
proof
  assume wf: "well_formed (fst ` set retr) (fst (batch_get_item api bk (world s)))"
  then obtain response w where
    b: "batch_get_item api bk (world s) = (Inr response, w)" and
    n: "names_within (fst ` set retr) response" and p: "pending response \<noteq> None"
    by (cases "batch_get_item api bk (world s)")
       (auto simp: well_formed_def split: sum.splits)
  from collect_responses_ok [OF n] obtain r where "collect_responses response retr = Inr r" ..
  with assms b p show False
    by (auto simp: attempt_def Let_def pending_def split: option.splits sum.splits if_splits)
qed

lemma attempt_break:
  assumes "attempt api tries st bk retr s = (Break r, s')"
  shows "\<not> reports_unprocessed (fst (batch_get_item api bk (world s)))"
  using assms
  by (auto simp: attempt_def Let_def reports_unprocessed_def pending_def
      split: prod.splits sum.splits option.splits if_splits)

lemma collect_responses_map_of:
  assumes "collect_responses response retr = Inr r" "distinct_tables (Inr response)"
  shows "map_of r t = map_option (\<lambda>v. v @ items_for t (Inr response)) (map_of retr t)"
proof (cases "Responses response")
  case None
  with assms show ?thesis
    by (cases "map_of retr t") (auto simp: collect_responses_def items_for_def)
next
  case (Some rs)
  with assms have c: "collect (map fst rs) rs retr = Inr r" and d: "distinct (map fst rs)"
    by (simp_all add: collect_responses_def distinct_tables_def)
  show ?thesis
  proof (cases "t \<in> set (map fst rs)")
    case True
    then obtain items where "map_of rs t = Some items"
      by (metis map_of_eq_None_iff not_None_eq set_map)
    with collect_map_of [OF c d, of t] True Some show ?thesis
      by (simp add: items_for_def)
  next
    case False
    then have "map_of rs t = None" by (simp add: map_of_eq_None_iff)
    with collect_map_of [OF c d, of t] False Some show ?thesis
      by (cases "map_of retr t") (simp_all add: items_for_def)
  qed
qed

lemma attempt_items:
  assumes "attempt api tries st bk retr s = (stp, s')"
    and "distinct_tables (fst (batch_get_item api bk (world s)))"
  shows "case stp of
           Break r \<Rightarrow>
             map_of r t = map_option (\<lambda>v. v @ items_for t (fst (batch_get_item api bk (world s)))) (map_of retr t)
         | Continue _ _ _ r \<Rightarrow>
             map_of r t = map_option (\<lambda>v. v @ items_for t (fst (batch_get_item api bk (world s)))) (map_of retr t)
         | Raise _ \<Rightarrow> True"
  using assms
  by (auto simp: attempt_def Let_def
      split: prod.splits sum.splits option.splits if_splits step.splits
      dest: collect_responses_map_of)

subsection \<open>The whole loop\<close>

lemma loop_sleeps:
  "do_batch_get_loop api tries st bk retr s = (res, s') \<Longrightarrow>
     \<exists>evs k. trace s' = trace s @ evs \<and> sleeps evs = take k (schedule (max_tries - Suc tries) st)"
proof (induction api tries st bk retr s arbitrary: res s' rule: do_batch_get_loop.induct)
  case (1 api tries st bk retr s)
  show ?case
  proof (cases "tries < max_tries")
    case False
    with "1.prems" have "s' = s" by simp
    then show ?thesis by (intro exI [of _ "[]"] exI [of _ 0]) simp
  next
    case True
    obtain stp s1 where att: "attempt api tries st bk retr s = (stp, s1)"
      by (cases "attempt api tries st bk retr s") 
    from attempt_run [OF att] obtain out rest where
      tr: "trace s1 = trace s @ BatchGetItem bk out # rest" and
      c: "(case stp of Continue tries' st' bk' retr' \<Rightarrow>
                tries' = Suc tries \<and>
                (if Suc tries < max_tries then sleeps rest = [st] \<and> st' = min (st * 2) 32
                 else sleeps rest = [] \<and> st' = st)
            | _ \<Rightarrow> rest = [])" by blast
    show ?thesis
    proof (cases stp)
      case (Break r)
      with "1.prems" True att have "s' = s1" by simp
      with tr c Break show ?thesis
        by (intro exI [of _ "BatchGetItem bk out # rest"] exI [of _ 0]) simp
    next
      case (Raise e)
      with "1.prems" True att have "s' = s1" by simp
      with tr c Raise show ?thesis
        by (intro exI [of _ "BatchGetItem bk out # rest"] exI [of _ 0]) simp
    next
      case (Continue t' st' bk' r')
      with "1.prems" True att have run: "do_batch_get_loop api t' st' bk' r' s1 = (res, s')" by simp
      from "1.IH" [OF True att [symmetric] Continue run] obtain evs k where
        e: "trace s' = trace s1 @ evs" "sleeps evs = take k (schedule (max_tries - Suc t') st')" by blast
      from c Continue have t': "t' = Suc tries" by simp
      show ?thesis
      proof (cases "Suc tries < max_tries")
        case True
        with c Continue have "sleeps rest = [st]" "st' = min (st * 2) 32" by simp_all
        moreover from True obtain m where "max_tries - Suc tries = Suc m" "max_tries - Suc (Suc tries) = m"
          by (cases "max_tries - Suc tries") auto
        ultimately show ?thesis using e tr t'
          by (intro exI [of _ "BatchGetItem bk out # rest @ evs"] exI [of _ "Suc k"]) simp
      next
        case False
        with c Continue have "sleeps rest = []" by simp
        moreover from False t' have "max_tries - Suc t' = 0" by simp
        ultimately show ?thesis using e tr t' False
          by (intro exI [of _ "BatchGetItem bk out # rest @ evs"] exI [of _ "0"]) simp
      qed
    qed
  qed
qed

lemma loop_keys:
  "do_batch_get_loop api tries st bk retr s = (Inr r, s') \<Longrightarrow> map fst r = map fst retr"
proof (induction api tries st bk retr s rule: do_batch_get_loop.induct)
  case (1 api tries st bk retr s)
  show ?case
  proof (cases "tries < max_tries")
    case False
    with "1.prems" show ?thesis by simp
  next
    case True
    obtain stp s1 where att: "attempt api tries st bk retr s = (stp, s1)"
      by (cases "attempt api tries st bk retr s")
    show ?thesis
    proof (cases stp)
      case (Break r0)
      with "1.prems" True att attempt_keys [OF att] show ?thesis by simp
    next
      case (Raise e)
      with "1.prems" True att show ?thesis by simp
    next
      case (Continue t' st' bk' r')
      with "1.prems" True att have "do_batch_get_loop api t' st' bk' r' s1 = (Inr r, s')"
        by simp
      from "1.IH" [OF True att [symmetric] Continue this] attempt_keys [OF att] Continue
      show ?thesis by simp
    qed
  qed
qed

lemma loop_returns:
  "do_batch_get_loop api tries st bk retr s = (res, s') \<Longrightarrow> tries < max_tries \<Longrightarrow>
     \<exists>evs. trace s' = trace s @ evs \<and> gets evs \<noteq> [] \<and>
       (well_formed (fst ` set retr) (snd (last (gets evs))) \<longrightarrow> (\<exists>r. res = Inr r))"
proof (induction api tries st bk retr s arbitrary: res s' rule: do_batch_get_loop.induct)
  case (1 api tries st bk retr s)
  note True = \<open>tries < max_tries\<close>
  obtain stp s1 where att: "attempt api tries st bk retr s = (stp, s1)"
    by (cases "attempt api tries st bk retr s")
  let ?out = "fst (batch_get_item api bk (world s))"
  from attempt_run [OF att] obtain rest where
    tr: "trace s1 = trace s @ BatchGetItem bk ?out # rest" and g: "gets rest = []"
    by blast
  show ?case
  proof (cases stp)
    case (Break r)
    with "1.prems" att have "res = Inr r" "s' = s1"
      by (simp_all add: do_batch_get_loop.simps)
    with tr g show ?thesis
      by (intro exI [of _ "BatchGetItem bk ?out # rest"]) simp
  next
    case (Raise e)
    with "1.prems" att have "s' = s1"
      by (simp add: do_batch_get_loop.simps)
    moreover from att Raise have "\<not> well_formed (fst ` set retr) ?out"
      using attempt_raise by blast
    ultimately show ?thesis using tr g
      by (intro exI [of _ "BatchGetItem bk ?out # rest"]) simp
  next
    case (Continue t' st' bk' r')
    with "1.prems" att have run: "do_batch_get_loop api t' st' bk' r' s1 = (res, s')"
      by (simp add: do_batch_get_loop.simps)
    from attempt_keys [OF att] Continue have "map fst r' = map fst retr" by simp
    then have keys: "fst ` set r' = fst ` set retr" by (metis set_map)
    show ?thesis
    proof (cases "t' < max_tries")
      case True
      from "1.IH" [OF \<open>tries < max_tries\<close> att [symmetric] Continue run True] obtain evs where
        e: "trace s' = trace s1 @ evs" "gets evs \<noteq> []"
           "well_formed (fst ` set r') (snd (last (gets evs))) \<longrightarrow> (\<exists>r. res = Inr r)"
        by blast
      with tr g keys show ?thesis
        by (intro exI [of _ "BatchGetItem bk ?out # rest @ evs"]) simp
    next
      case False
      with run have "res = Inr r'" "s' = s1"
        by (simp_all add: do_batch_get_loop.simps)
      with tr g show ?thesis
        by (intro exI [of _ "BatchGetItem bk ?out # rest"]) simp
    qed
  qed
qed

lemma loop_exhaust:
  "do_batch_get_loop api tries st bk retr s = (res, s') \<Longrightarrow>
     \<exists>evs. trace s' = trace s @ evs \<and>
       ((\<forall>p \<in> set (gets evs). well_formed (fst ` set retr) (snd p) \<and> reports_unprocessed (snd p))
          \<longrightarrow> length (gets evs) = max_tries - tries
              \<and> sleeps evs = schedule (max_tries - Suc tries) st
              \<and> sleeps (after_request (max_tries - tries) evs) = [])"
proof (induction api tries st bk retr s arbitrary: res s' rule: do_batch_get_loop.induct)
  case (1 api tries st bk retr s)
  show ?case
  proof (cases "tries < max_tries")
    case False
    with "1.prems" have "s' = s" by (simp add: do_batch_get_loop.simps)
    with False show ?thesis by (intro exI [of _ "[]"]) simp
  next
    case True
    obtain stp s1 where att: "attempt api tries st bk retr s = (stp, s1)"
      by (cases "attempt api tries st bk retr s")
    let ?out = "fst (batch_get_item api bk (world s))"
    from attempt_run [OF att] obtain rest where
      tr: "trace s1 = trace s @ BatchGetItem bk ?out # rest" and g: "gets rest = []" and
      c: "case stp of
            Continue tries' st' bk' retr' \<Rightarrow>
              tries' = Suc tries \<and>
              (if Suc tries < max_tries then sleeps rest = [st] \<and> st' = min (st * 2) 32
               else sleeps rest = [] \<and> st' = st)
          | _ \<Rightarrow> rest = []"
      by blast
    show ?thesis
    proof (cases stp)
      case (Break r)
      with "1.prems" att True have "s' = s1" by (simp add: do_batch_get_loop.simps)
      moreover from att Break have "\<not> reports_unprocessed ?out"
        using attempt_break by blast
      ultimately show ?thesis using tr g
        by (intro exI [of _ "BatchGetItem bk ?out # rest"]) simp
    next
      case (Raise e)
      with "1.prems" att True have "s' = s1" by (simp add: do_batch_get_loop.simps)
      moreover from att Raise have "\<not> well_formed (fst ` set retr) ?out"
        using attempt_raise by blast
      ultimately show ?thesis using tr g
        by (intro exI [of _ "BatchGetItem bk ?out # rest"]) simp
    next
      case (Continue t' st' bk' r')
      with "1.prems" att True have run: "do_batch_get_loop api t' st' bk' r' s1 = (res, s')"
        by (simp add: do_batch_get_loop.simps)
      from attempt_keys [OF att] Continue have "map fst r' = map fst retr" by simp
      then have keys: "fst ` set r' = fst ` set retr" by (metis set_map)
      from c Continue have t': "t' = Suc tries" by simp
      from "1.IH" [OF True att [symmetric] Continue run] obtain evs where
        e: "trace s' = trace s1 @ evs" and
        ih: "(\<forall>p \<in> set (gets evs). well_formed (fst ` set r') (snd p) \<and> reports_unprocessed (snd p))
              \<longrightarrow> length (gets evs) = max_tries - t'
                  \<and> sleeps evs = schedule (max_tries - Suc t') st'
                  \<and> sleeps (after_request (max_tries - t') evs) = []"
        by blast
      show ?thesis
      proof (cases "Suc tries < max_tries")
        case lt: True
        then obtain m where m: "max_tries - tries = Suc (Suc m)" "max_tries - Suc tries = Suc m"
          "max_tries - Suc (Suc tries) = m"
          by (metis Suc_diff_Suc True)
        from c Continue lt have sl: "sleeps rest = [st]" "st' = min (st * 2) 32" by simp_all
        show ?thesis
          using tr g e ih keys t' m sl
          by (intro exI [of _ "BatchGetItem bk ?out # rest @ evs"])
             (simp add: after_request_skip)
      next
        case ge: False
        with True have m: "max_tries - tries = Suc 0" "max_tries - Suc tries = 0" by simp_all
        from c Continue ge have sl: "sleeps rest = []" by simp
        from ge t' run have "s' = s1" by (simp add: do_batch_get_loop.simps)
        with tr g m sl show ?thesis
          by (intro exI [of _ "BatchGetItem bk ?out # rest"]) simp
      qed
    qed
  qed
qed

declare do_batch_get_loop.simps [simp del]

lemma schedule_start: "schedule (max_tries - Suc 0) 1 = [1, 2, 4, 8]"
  by (simp add: max_tries_def numeral_eq_Suc)

lemma take_cases4:
  "take k [a, b, c, d] \<in> {[], [a], [a, b], [a, b, c], [a, b, c, d]}"
proof -
  consider "k = 0" | "k = 1" | "k = 2" | "k = 3" | "4 \<le> k" by linarith
  then show ?thesis
    by cases (simp_all add: numeral_eq_Suc)
qed

lemma loop_items:
  "do_batch_get_loop api tries st bk retr s = (Inr r, s') \<Longrightarrow>
     \<exists>evs. trace s' = trace s @ evs \<and>
       ((\<forall>p \<in> set (gets evs). distinct_tables (snd p)) \<longrightarrow>
          (\<forall>t. map_of r t =
             map_option (\<lambda>v. v @ concat (map (\<lambda>p. items_for t (snd p)) (gets evs))) (map_of retr t)))"
proof (induction api tries st bk retr s rule: do_batch_get_loop.induct)
  case (1 api tries st bk retr s)
  show ?case
  proof (cases "tries < max_tries")
    case False
    with "1.prems" have "s' = s" "r = retr" by (simp_all add: do_batch_get_loop.simps)
    then show ?thesis
      by (intro exI [of _ "[]"]) (simp add: option.map_ident)
  next
    case True
    obtain stp s1 where att: "attempt api tries st bk retr s = (stp, s1)"
      by (cases "attempt api tries st bk retr s")
    let ?out = "fst (batch_get_item api bk (world s))"
    from attempt_run [OF att] obtain rest where
      tr: "trace s1 = trace s @ BatchGetItem bk ?out # rest" and g: "gets rest = []"
      by blast
    show ?thesis
    proof (cases stp)
      case (Break r0)
      with "1.prems" att True have eq: "s' = s1" "r = r0" by (simp_all add: do_batch_get_loop.simps)
      have "\<forall>t. map_of r t = map_option (\<lambda>v. v @ items_for t ?out) (map_of retr t)"
        if "distinct_tables ?out"
        using attempt_items [OF att that] Break eq by simp
      with tr g eq show ?thesis
        by (intro exI [of _ "BatchGetItem bk ?out # rest"]) simp
    next
      case (Raise e)
      with "1.prems" att True show ?thesis by (simp add: do_batch_get_loop.simps)
    next
      case (Continue t' st' bk' r')
      with "1.prems" att True have run: "do_batch_get_loop api t' st' bk' r' s1 = (Inr r, s')"
        by (simp add: do_batch_get_loop.simps)
      from "1.IH" [OF True att [symmetric] Continue run] obtain evs where
        e: "trace s' = trace s1 @ evs" and
        ih: "(\<forall>p \<in> set (gets evs). distinct_tables (snd p)) \<longrightarrow>
              (\<forall>t. map_of r t =
                 map_option (\<lambda>v. v @ concat (map (\<lambda>p. items_for t (snd p)) (gets evs))) (map_of r' t))"
        by blast
      have step: "\<forall>t. map_of r' t = map_option (\<lambda>v. v @ items_for t ?out) (map_of retr t)"
        if "distinct_tables ?out"
        using attempt_items [OF att that] Continue by simp
      have "\<forall>t. map_of r t =
             map_option (\<lambda>v. v @ concat (map (\<lambda>p. items_for t (snd p)) ((bk, ?out) # gets evs)))
               (map_of retr t)"
        if d: "distinct_tables ?out" "\<forall>p \<in> set (gets evs). distinct_tables (snd p)"
      proof
        fix t
        from ih d have "map_of r t =
            map_option (\<lambda>v. v @ concat (map (\<lambda>p. items_for t (snd p)) (gets evs))) (map_of r' t)"
          by blast
        with step [OF d(1)] show "map_of r t =
             map_option (\<lambda>v. v @ concat (map (\<lambda>p. items_for t (snd p)) ((bk, ?out) # gets evs)))
               (map_of retr t)"
          by (cases "map_of retr t") simp_all
      qed
      with tr g e show ?thesis
        by (intro exI [of _ "BatchGetItem bk ?out # rest @ evs"]) simp
    qed
  qed
qed

lemma map_of_init_retrieved:
  "map_of (init_retrieved bk) t = (if t \<in> fst ` set bk then Some [] else None)"
  by (induction bk) (auto simp: init_retrieved_def)

lemma keys_init_retrieved: "map fst (init_retrieved bk) = map fst bk"
  by (induction bk) (auto simp: init_retrieved_def)

lemma tables_init_retrieved: "fst ` set (init_retrieved bk) = fst ` set bk"
  by (metis keys_init_retrieved set_map)

lemma loop_start:
  "do_batch_get api bk s = (res, s') \<Longrightarrow>
     do_batch_get_loop api 0 1 bk (init_retrieved bk) s = (res, s')"
  by (simp add: do_batch_get_def)

lemma collect_self:
  assumes "map fst r = map fst bk" "distinct (map fst bk)"
  shows "collect (map fst r) r (init_retrieved bk) = Inr r"
proof -
  have "set (map fst r) \<subseteq> fst ` set r" by simp
  moreover from assms(1) have "set (map fst r) \<subseteq> fst ` set (init_retrieved bk)"
    by (simp add: tables_init_retrieved)
  ultimately obtain r' where c: "collect (map fst r) r (init_retrieved bk) = Inr r'"
    using collect_ok by blast
  from collect_keys [OF c] assms(1) have k: "map fst r' = map fst r"
    by (simp add: keys_init_retrieved)
  from assms have d: "distinct (map fst r)" by simp
  have "map_of r' = map_of r"
  proof
    fix t
    show "map_of r' t = map_of r t"
    proof (cases "t \<in> set (map fst r)")
      case True
      then obtain items where i: "map_of r t = Some items"
        by (metis map_of_eq_None_iff not_None_eq set_map)
      from True assms(1) have "t \<in> fst ` set bk" by (metis set_map)
      with collect_map_of [OF c d, of t] True i show ?thesis
        by (simp add: map_of_init_retrieved)
    next
      case False
      then have "map_of r t = None" by (simp add: map_of_eq_None_iff)
      moreover from False assms(1) have "t \<notin> fst ` set bk" by (metis set_map)
      ultimately show ?thesis
        using collect_map_of [OF c d, of t] False by (simp add: map_of_init_retrieved)
    qed
  qed
  with k d have "r' = r" by (intro alist_eqI) simp_all
  with c show ?thesis by simp
qed

subsection \<open>Evaluation of concrete runs\<close>

subsection \<open>The value returned\<close>

lemma keys_accumulator: "map fst (accumulator bk evs) = map fst bk"
  by (induction bk) (auto simp: accumulator_def)

lemma map_of_accumulator:
  "map_of (accumulator bk evs) t = (if t \<in> fst ` set bk then Some (received t evs) else None)"
  by (induction bk) (auto simp: accumulator_def)

lemma loop_value:
  assumes "do_batch_get api bk s = (Inr r, s')"
    and "\<forall>p \<in> set (gets (new_events s s')). distinct_tables (snd p)"
    and "distinct (map fst bk)"
  shows "r = accumulator bk (new_events s s')"
proof -
  note run = loop_start [OF assms(1)]
  from loop_items [OF run] obtain evs where
    e: "trace s' = trace s @ evs" and
    i: "(\<forall>p \<in> set (gets evs). distinct_tables (snd p)) \<longrightarrow>
          (\<forall>t. map_of r t =
             map_option (\<lambda>v. v @ concat (map (\<lambda>p. items_for t (snd p)) (gets evs)))
               (map_of (init_retrieved bk) t))"
    by blast
  from e have n: "new_events s s' = evs" by (rule new_events_append)
  from loop_keys [OF run] have k: "map fst r = map fst bk" by (simp add: keys_init_retrieved)
  have "map_of r t = map_of (accumulator bk (new_events s s')) t" for t
    using i assms(2) n by (simp add: map_of_init_retrieved map_of_accumulator received_def)
  then have "map_of r = map_of (accumulator bk (new_events s s'))" by (rule ext)
  with k assms(3) show ?thesis
    by (intro alist_eqI) (simp_all add: keys_accumulator)
qed

lemma accumulator_cong:
  "(\<And>t. received t evs = received t evs') \<Longrightarrow> accumulator bk evs = accumulator bk evs'"
  by (simp add: accumulator_def)

lemmas eval_defs = do_batch_get_def do_batch_get_loop.simps attempt_def collect_responses_def
  init_retrieved_def emit_def max_tries_def scripted_def start_def demo_keys_def
  partial_response_def final_response_def never_fails_def busy_api_def Let_def
  new_events_def


lemmas obs_defs = gets_def sleeps_def well_formed_def names_within_def pending_def
  reports_unprocessed_def items_for_def distinct_tables_def two_step_api_def done_api_def
  done_response_def truncated_response_def truncated_api_def
  empty_keys_api_def empty_keys_response_def served_api_def served_response_def

section \<open>Lemmas about get_batch_data\<close>









section \<open>Lemmas about the operations\<close>

lemma failures_simps [simp]:
  "failures [] = []" "failures (e # evs) = failure_of e @ failures evs"
  "failures (xs @ ys) = failures xs @ failures ys"
  by (simp_all add: failures_def)

lemma calls_simps [simp]:
  "calls [] = []" "calls (e # evs) = (if is_log e then calls evs else e # calls evs)"
  "calls (xs @ ys) = calls xs @ calls ys"
  by (simp_all add: calls_def)

lemma extends_refl [simp]: "extends s s"
  by (simp add: extends_def)

lemma extends_trans: "extends s s' \<Longrightarrow> extends s' s'' \<Longrightarrow> extends s s''"
  by (auto simp: extends_def)

lemma new_events_refl [simp]: "new_events s s = []"
  by (simp add: new_events_def)

lemma new_events_trans:
  "extends s s' \<Longrightarrow> extends s' s'' \<Longrightarrow> new_events s s'' = new_events s s' @ new_events s' s''"
  by (auto simp: extends_def new_events_def prefix_def)

lemma emit_extends [simp]: "extends s (emit e s)" "new_events s (emit e s) = [e]"
  by (simp_all add: extends_def new_events_def emit_def)

lemma emit_after:
  "extends s s' \<Longrightarrow> extends s (emit e s') \<and> new_events s (emit e s') = new_events s s' @ [e]"
  using extends_trans [of s s' "emit e s'"] new_events_trans [of s s' "emit e s'"] by simp

lemma sdk_call_run:
  "sdk_call f ev s = (r, s') \<Longrightarrow> extends s s' \<and> new_events s s' = [ev r]"
  by (auto simp: sdk_call_def emit_def extends_def new_events_def split: prod.splits)

lemma faithful_Inr_Nil [simp]: "faithful (Inr x) []"
  by (simp add: faithful_def)

lemma faithful_prepend:
  "failures pre = [] \<Longrightarrow> faithful res evs \<Longrightarrow> faithful res (pre @ evs)"
  by (auto simp: faithful_def split: sum.splits error.splits)

lemma faithful_Cons:
  "failure_of e = [] \<Longrightarrow> faithful res evs \<Longrightarrow> faithful res (e # evs)"
  using faithful_prepend [of "[e]" res evs] by simp

lemma faithful_snoc:
  "failure_of e = [] \<Longrightarrow> faithful res evs \<Longrightarrow> faithful res (evs @ [e])"
  by (auto simp: faithful_def split: sum.splits error.splits)

lemma faithful_Inl_cong:
  "faithful (Inl e :: error + 'a) evs = faithful (Inl e :: error + 'b) evs"
  by (simp add: faithful_def)


lemma put_items_run:
  "put_items api t items s = (res, s') \<Longrightarrow>
     extends s s' \<and> faithful res (new_events s s') \<and>
     (\<forall>e \<in> set (new_events s s'). \<exists>i out. e = PutItem t i out \<and> i \<in> set items) \<and>
     (res = Inr () \<longrightarrow> new_events s s' = map (\<lambda>i. PutItem t i None) items)"
proof (induction items arbitrary: s)
  case Nil
  then show ?case by auto
next
  case (Cons item items)
  obtain out s1 where c: "sdk_call (writer_put_item api t item) (PutItem t item) s = (out, s1)"
    by (cases "sdk_call (writer_put_item api t item) (PutItem t item) s")
  from sdk_call_run [OF c] have e1: "extends s s1" "new_events s s1 = [PutItem t item out]"
    by simp_all
  show ?case
  proof (cases out)
    case (Some code)
    with Cons.prems c have "res = Inl (ClientError code)" "s' = s1" by simp_all
    with e1 Some show ?thesis by (simp add: faithful_def)
  next
    case None
    with Cons.prems c have "put_items api t items s1 = (res, s')" by simp
    from Cons.IH [OF this] have
      ih: "extends s1 s'" "faithful res (new_events s1 s')"
        "\<forall>e \<in> set (new_events s1 s'). \<exists>i out. e = PutItem t i out \<and> i \<in> set items"
        "res = Inr () \<longrightarrow> new_events s1 s' = map (\<lambda>i. PutItem t i None) items"
      by simp_all
    from new_events_trans [OF e1(1) ih(1)] e1(2)
    have n: "new_events s s' = PutItem t item out # new_events s1 s'" by simp
    from ih(2) None have "faithful res (PutItem t item out # new_events s1 s')"
      by (simp add: faithful_Cons)
    with n ih None extends_trans [OF e1(1) ih(1)] show ?thesis
      by auto
  qed
qed

lemma delete_items_run:
  "delete_items api t items s = (res, s') \<Longrightarrow>
     extends s s' \<and> faithful res (new_events s s') \<and>
     (\<forall>e \<in> set (new_events s s'). \<exists>k out. e = DeleteItem t k out) \<and>
     (res = Inr () \<longrightarrow>
        (\<forall>item \<in> set items. map_of item ''notional'' \<noteq> None) \<and>
        new_events s s' =
          map (\<lambda>item. DeleteItem t [(''notional'', the (map_of item ''notional''))] None) items)"
proof (induction items arbitrary: s)
  case Nil
  then show ?case by auto
next
  case (Cons item items)
  show ?case
  proof (cases "map_of item ''notional''")
    case None
    with Cons.prems have "res = Inl KeyError" "s' = s" by simp_all
    then show ?thesis by (simp add: faithful_def)
  next
    case (Some v)
    let ?k = "[(''notional'', v)]"
    obtain out s1 where c: "sdk_call (writer_delete_item api t ?k) (DeleteItem t ?k) s = (out, s1)"
      by (cases "sdk_call (writer_delete_item api t ?k) (DeleteItem t ?k) s")
    from sdk_call_run [OF c] have e1: "extends s s1" "new_events s s1 = [DeleteItem t ?k out]"
      by simp_all
    show ?thesis
    proof (cases out)
      case (Some code)
      with Cons.prems c \<open>map_of item ''notional'' = Some v\<close>
      have "res = Inl (ClientError code)" "s' = s1" by simp_all
      with e1 Some show ?thesis by (simp add: faithful_def)
    next
      case None
      with Cons.prems c \<open>map_of item ''notional'' = Some v\<close>
      have "delete_items api t items s1 = (res, s')" by simp
      from Cons.IH [OF this] have
        ih: "extends s1 s'" "faithful res (new_events s1 s')"
          "\<forall>e \<in> set (new_events s1 s'). \<exists>k out. e = DeleteItem t k out"
          "res = Inr () \<longrightarrow>
             (\<forall>item \<in> set items. map_of item ''notional'' \<noteq> None) \<and>
             new_events s1 s' =
               map (\<lambda>item. DeleteItem t [(''notional'', the (map_of item ''notional''))] None) items"
        by simp_all
      from new_events_trans [OF e1(1) ih(1)] e1(2)
      have n: "new_events s s' = DeleteItem t ?k out # new_events s1 s'" by simp
      from ih(2) None have "faithful res (DeleteItem t ?k out # new_events s1 s')"
        by (simp add: faithful_Cons)
      with n ih None extends_trans [OF e1(1) ih(1)] \<open>map_of item ''notional'' = Some v\<close>
      show ?thesis by auto
    qed
  qed
qed

lemma with_batch_writer_run:
  assumes "with_batch_writer api t body s = (res, s')"
    and "\<And>r s1. body s = (r, s1) \<Longrightarrow> extends s s1 \<and> faithful r (new_events s s1)"
  shows "extends s s' \<and> faithful res (new_events s s') \<and>
         (\<exists>r s1 out. body s = (r, s1) \<and> new_events s s' = new_events s s1 @ [WriterExit t out] \<and>
            (res = Inr () \<longrightarrow> r = Inr () \<and> out = None))"
proof -
  obtain r s1 where b: "body s = (r, s1)" by (cases "body s")
  from assms(2) [OF b] have e1: "extends s s1" and f1: "faithful r (new_events s s1)"
    by simp_all
  obtain out s2 where c: "sdk_call (writer_exit api t) (WriterExit t) s1 = (out, s2)"
    by (cases "sdk_call (writer_exit api t) (WriterExit t) s1")
  from sdk_call_run [OF c] have e2: "extends s1 s2" "new_events s1 s2 = [WriterExit t out]"
    by simp_all
  from new_events_trans [OF e1 e2(1)] e2(2)
  have n: "new_events s s2 = new_events s s1 @ [WriterExit t out]" by simp
  show ?thesis
  proof (cases out)
    case None
    with assms(1) b c have eq: "res = r" "s' = s2" by (simp_all add: with_batch_writer_def)
    from f1 None have "faithful r (new_events s s1 @ [WriterExit t out])"
      by (simp add: faithful_snoc)
    with eq n b None extends_trans [OF e1 e2(1)] show ?thesis by auto
  next
    case (Some code)
    with assms(1) b c have eq: "res = Inl (ClientError code)" "s' = s2"
      by (simp_all add: with_batch_writer_def)
    with n b Some extends_trans [OF e1 e2(1)] show ?thesis
      by (auto simp: faithful_def)
  qed
qed

lemma reraise_logged_run:
  assumes "reraise_logged msg args (r, s1) = (res, s')"
    and "extends s s1" "faithful r (new_events s s1)"
  shows "extends s s' \<and> handled res (new_events s s') \<and> res = r \<and>
         calls (new_events s s') = calls (new_events s s1)"
proof (cases "\<exists>code. r = Inl (ClientError code)")
  case True
  then obtain code where r: "r = Inl (ClientError code)" ..
  with assms(1) have eq: "res = r" "s' = emit (LogException msg args) s1"
    by (simp_all add: reraise_logged_def)
  from emit_after [OF assms(2), of "LogException msg args"] eq
  have e: "extends s s'" "new_events s s' = new_events s s1 @ [LogException msg args]"
    by simp_all
  from assms(3) have "faithful r (new_events s s1 @ [LogException msg args])"
    by (simp add: faithful_snoc)
  with e eq r show ?thesis by (simp add: handled_def)
next
  case False
  then have "reraise_logged msg args (r, s1) = (r, s1)"
    by (auto simp: reraise_logged_def split: sum.splits error.splits)
  with assms(1) have eq: "res = r" "s' = s1" by simp_all
  with assms(2,3) False show ?thesis
    by (auto simp: handled_def split: sum.splits error.splits)
qed

lemma logged_block_run:
  assumes "and_then (r1, s1) (\<lambda>_ s'. (Inr (), emit (LogInfo msg args) s')) = (res, s')"
    and "extends s s1" "faithful r1 (new_events s s1)"
  shows "extends s s' \<and> faithful res (new_events s s') \<and>
         calls (new_events s s') = calls (new_events s s1) \<and> (res = Inr () \<longrightarrow> (\<exists>x. r1 = Inr x))"
proof (cases r1)
  case (Inl e)
  with assms(1) have "res = Inl e" "s' = s1" by (simp_all add: and_then_def)
  with assms(2,3) Inl show ?thesis by (simp add: faithful_def)
next
  case (Inr x)
  with assms(1) have eq: "res = Inr ()" "s' = emit (LogInfo msg args) s1"
    by (simp_all add: and_then_def)
  from emit_after [OF assms(2), of "LogInfo msg args"] eq
  have e: "extends s s'" "new_events s s' = new_events s s1 @ [LogInfo msg args]"
    by simp_all
  from assms(3) Inr have "faithful (Inr () :: error + unit) (new_events s s1 @ [LogInfo msg args])"
    by (simp add: faithful_def)
  with e eq Inr show ?thesis by simp
qed

text \<open>A writer block: the loop in the batch writer, then the log line.\<close>

lemma put_block_run:
  assumes "and_then (with_batch_writer api t (put_items api t items) s)
             (\<lambda>_ s'. (Inr (), emit (LogInfo msg args) s')) = (res, s')"
  shows "extends s s' \<and> faithful res (new_events s s') \<and>
         (\<forall>e \<in> set (calls (new_events s s')).
            (\<exists>i out. e = PutItem t i out \<and> i \<in> set items) \<or> (\<exists>out. e = WriterExit t out)) \<and>
         (\<exists>out. WriterExit t out \<in> set (new_events s s')) \<and>
         (res = Inr () \<longrightarrow>
            calls (new_events s s') = map (\<lambda>i. PutItem t i None) items @ [WriterExit t None])"
proof -
  obtain r1 s1 where w: "with_batch_writer api t (put_items api t items) s = (r1, s1)"
    by (cases "with_batch_writer api t (put_items api t items) s")
  from with_batch_writer_run [OF w] put_items_run [of api t items s]
  obtain r0 s0 out where
    e1: "extends s s1" "faithful r1 (new_events s s1)" and
    b: "put_items api t items s = (r0, s0)" and
    n: "new_events s s1 = new_events s s0 @ [WriterExit t out]" and
    ok: "r1 = Inr () \<longrightarrow> r0 = Inr () \<and> out = None"
    by blast
  from put_items_run [OF b] have
    p: "\<forall>e \<in> set (new_events s s0). \<exists>i out. e = PutItem t i out \<and> i \<in> set items"
       "r0 = Inr () \<longrightarrow> new_events s s0 = map (\<lambda>i. PutItem t i None) items"
    by simp_all
  from p(1) have c0: "calls (new_events s s0) = new_events s s0"
    unfolding calls_def by (intro filter_True) auto
  from logged_block_run [OF assms [unfolded w] e1] have
    l: "extends s s'" "faithful res (new_events s s')"
       "calls (new_events s s') = calls (new_events s s1)" "res = Inr () \<longrightarrow> (\<exists>x. r1 = Inr x)"
    by simp_all
  from l(3) n c0 have c: "calls (new_events s s') = new_events s s0 @ [WriterExit t out]"
    by simp
  have "WriterExit t out \<in> set (calls (new_events s s'))" using c by simp
  then have x: "\<exists>out. WriterExit t out \<in> set (new_events s s')"
    by (auto simp: calls_def)
  from c p(1) have a: "\<forall>e \<in> set (calls (new_events s s')).
            (\<exists>i out. e = PutItem t i out \<and> i \<in> set items) \<or> (\<exists>out. e = WriterExit t out)"
    by auto
  from l(4) ok p(2) c have "res = Inr () \<longrightarrow>
            calls (new_events s s') = map (\<lambda>i. PutItem t i None) items @ [WriterExit t None]"
    by auto
  with l(1,2) a x show ?thesis by blast
qed

lemma delete_block_run:
  assumes "and_then (with_batch_writer api t (delete_items api t items) s)
             (\<lambda>_ s'. (Inr (), emit (LogInfo msg args) s')) = (res, s')"
  shows "extends s s' \<and> faithful res (new_events s s') \<and>
         (res = Inr () \<longrightarrow>
            (\<forall>item \<in> set items. map_of item ''notional'' \<noteq> None) \<and>
            calls (new_events s s') =
              map (\<lambda>item. DeleteItem t [(''notional'', the (map_of item ''notional''))] None) items
              @ [WriterExit t None])"
proof -
  obtain r1 s1 where w: "with_batch_writer api t (delete_items api t items) s = (r1, s1)"
    by (cases "with_batch_writer api t (delete_items api t items) s")
  from with_batch_writer_run [OF w] delete_items_run [of api t items s]
  obtain r0 s0 out where
    e1: "extends s s1" "faithful r1 (new_events s s1)" and
    b: "delete_items api t items s = (r0, s0)" and
    n: "new_events s s1 = new_events s s0 @ [WriterExit t out]" and
    ok: "r1 = Inr () \<longrightarrow> r0 = Inr () \<and> out = None"
    by blast
  from delete_items_run [OF b] have
    p: "\<forall>e \<in> set (new_events s s0). \<exists>k out. e = DeleteItem t k out"
       "r0 = Inr () \<longrightarrow>
          (\<forall>item \<in> set items. map_of item ''notional'' \<noteq> None) \<and>
          new_events s s0 =
            map (\<lambda>item. DeleteItem t [(''notional'', the (map_of item ''notional''))] None) items"
    by simp_all
  from p(1) have c0: "calls (new_events s s0) = new_events s s0"
    unfolding calls_def by (intro filter_True) auto
  from logged_block_run [OF assms [unfolded w] e1] have
    l: "extends s s'" "faithful res (new_events s s')"
       "calls (new_events s s') = calls (new_events s s1)" "res = Inr () \<longrightarrow> (\<exists>x. r1 = Inr x)"
    by simp_all
  from l(3) n c0 have c: "calls (new_events s s') = new_events s s0 @ [WriterExit t out]"
    by simp
  from l(4) ok p(2) c have "res = Inr () \<longrightarrow>
            (\<forall>item \<in> set items. map_of item ''notional'' \<noteq> None) \<and>
            calls (new_events s s') =
              map (\<lambda>item. DeleteItem t [(''notional'', the (map_of item ''notional''))] None) items
              @ [WriterExit t None]"
    by auto
  with l(1,2) show ?thesis by blast
qed









lemma archive_create_run:
  assumes "archive_create api trade_table s = (res, s')"
  shows "extends s s' \<and> handled res (new_events s s') \<and>
         (\<forall>a. res = Inr a \<longrightarrow>
            calls (new_events s s') =
              [CreateTable (archive_spec trade_table) (Inr a), WaitUntilExists a None])"
proof -
  let ?spec = "archive_spec trade_table"
  let ?body = "case sdk_call (sdk_create_table api ?spec) (CreateTable ?spec) s of
             (Inl code, s1) \<Rightarrow> (Inl (ClientError code), s1)
           | (Inr archive_table, s1) \<Rightarrow>
               (case sdk_call (wait_until_exists api archive_table) (WaitUntilExists archive_table)
                       (emit (LogInfo ''Table %s created, wait until exists.''
                                [Str (name archive_table)]) s1) of
                  (Some code, s2) \<Rightarrow> (Inl (ClientError code), s2)
                | (None, s2) \<Rightarrow> (Inr archive_table, s2))"
  obtain r sb where b: "?body = (r, sb)" by (cases ?body)
  obtain out s1 where c: "sdk_call (sdk_create_table api ?spec) (CreateTable ?spec) s = (out, s1)"
    by (cases "sdk_call (sdk_create_table api ?spec) (CreateTable ?spec) s")
  from sdk_call_run [OF c] have e1: "extends s s1" "new_events s s1 = [CreateTable ?spec out]"
    by simp_all
  have body: "extends s sb \<and> faithful r (new_events s sb) \<and>
         (\<forall>a. r = Inr a \<longrightarrow>
            calls (new_events s sb) = [CreateTable ?spec (Inr a), WaitUntilExists a None])"
  proof (cases out)
    case (Inl code)
    with b c have "r = Inl (ClientError code)" "sb = s1" by simp_all
    with e1 Inl show ?thesis by (simp add: faithful_def)
  next
    case (Inr a)
    let ?log = "LogInfo ''Table %s created, wait until exists.'' [Str (name a)]"
    obtain w s2 where c2:
      "sdk_call (wait_until_exists api a) (WaitUntilExists a) (emit ?log s1) = (w, s2)"
      by (cases "sdk_call (wait_until_exists api a) (WaitUntilExists a) (emit ?log s1)")
    from sdk_call_run [OF c2] have
      e2: "extends (emit ?log s1) s2" "new_events (emit ?log s1) s2 = [WaitUntilExists a w]"
      by simp_all
    from emit_after [OF e1(1), of ?log] e1(2) have
      e3: "extends s (emit ?log s1)" "new_events s (emit ?log s1) = [CreateTable ?spec out, ?log]"
      by simp_all
    from new_events_trans [OF e3(1) e2(1)] e3(2) e2(2) Inr
    have n: "new_events s s2 = [CreateTable ?spec (Inr a), ?log, WaitUntilExists a w]" by simp
    note e = extends_trans [OF e3(1) e2(1)]
    show ?thesis
    proof (cases w)
      case (Some code)
      with b c c2 Inr have "r = Inl (ClientError code)" "sb = s2" by simp_all
      with e n Some show ?thesis by (simp add: faithful_def)
    next
      case None
      with b c c2 Inr have "r = Inr a" "sb = s2" by simp_all
      with e n None show ?thesis by (simp add: faithful_def)
    qed
  qed
  from assms b have
    "reraise_logged ''Couldn't create archive table for %s.'' [Str (name trade_table)] (r, sb) = (res, s')"
    by (simp add: archive_create_def Let_def archive_spec_def)
  from reraise_logged_run [OF this] body show ?thesis by auto
qed

lemma put_items_error:
  "put_items api t items s = (Inl e, s') \<Longrightarrow> \<exists>code. e = ClientError code"
  by (induction items arbitrary: s) (auto split: prod.splits option.splits)

lemma put_block_error:
  assumes "and_then (with_batch_writer api t (put_items api t items) s)
             (\<lambda>_ s'. (Inr (), emit (LogInfo msg args) s')) = (Inl e, s')"
  shows "\<exists>code. e = ClientError code"
  using assms
  by (auto simp: and_then_def with_batch_writer_def
      split: prod.splits sum.splits option.splits dest: put_items_error)

lemma archive_put_duplicates_run:
  assumes "archive_put_duplicates api t items s = (res, s')"
  shows "extends s s' \<and> swallowing res (new_events s s') \<and>
         (\<forall>e \<in> set (calls (new_events s s')).
            (\<exists>i out. e = PutItem t i out \<and> i \<in> set items) \<or> (\<exists>out. e = WriterExit t out))"
proof -
  let ?body = "and_then (with_batch_writer api t (put_items api t items) s)
             (\<lambda>_ s'. (Inr (), emit (LogInfo ''Put trades into %s.'' [Str (name t)]) s'))"
  obtain r sb where b: "?body = (r, sb)" by (cases ?body)
  from put_block_run [OF b] have
    p: "extends s sb" "faithful r (new_events s sb)"
       "\<forall>e \<in> set (calls (new_events s sb)).
            (\<exists>i out. e = PutItem t i out \<and> i \<in> set items) \<or> (\<exists>out. e = WriterExit t out)"
    by simp_all
  show ?thesis
  proof (cases r)
    case (Inr u)
    with assms b have "res = Inr ()" "s' = sb" by (simp_all add: archive_put_duplicates_def)
    with p Inr show ?thesis by (simp add: swallowing_def faithful_def)
  next
    case (Inl e)
    with b put_block_error obtain code where e: "e = ClientError code" by blast
    with p(2) Inl have f: "failures (new_events s sb) \<noteq> []" "last (failures (new_events s sb)) = code"
      by (simp_all add: faithful_def)
    show ?thesis
    proof (cases "code = ''ValidationException''")
      case True
      with assms b Inl e have eq: "res = Inr ()" "s' = emit expected_log sb"
        by (simp_all add: archive_put_duplicates_def expected_log_def)
      from emit_after [OF p(1), of expected_log] eq have
        n: "extends s s'" "new_events s s' = new_events s sb @ [expected_log]" by simp_all
      with eq f True p(3) show ?thesis
        by (simp add: swallowing_def expected_log_def)
    next
      case False
      let ?log = "LogException
        ''Got unexpected exception when trying to put duplicate records into the archive table.'' []"
      from False assms b Inl e have eq: "res = Inl (ClientError code)" "s' = emit ?log sb"
        by (simp_all add: archive_put_duplicates_def)
      from emit_after [OF p(1), of ?log] eq have
        n: "extends s s'" "new_events s s' = new_events s sb @ [?log]" by simp_all
      with eq f False p(3) show ?thesis
        by (simp add: swallowing_def)
    qed
  qed
qed

lemma archive_put_run:
  assumes "archive_put api t items s = (res, s')"
  shows "extends s s' \<and> handled res (new_events s s') \<and>
         (\<exists>out. WriterExit t out \<in> set (new_events s s')) \<and>
         (res = Inr () \<longrightarrow>
            calls (new_events s s') = map (\<lambda>i. PutItem t i None) items @ [WriterExit t None])"
proof -
  let ?body = "and_then (with_batch_writer api t (put_items api t items) s)
             (\<lambda>_ s'. (Inr (), emit (LogInfo ''Put trades into %s.'' [Str (name t)]) s'))"
  obtain r sb where b: "?body = (r, sb)" by (cases ?body)
  from put_block_run [OF b] have
    p: "extends s sb" "faithful r (new_events s sb)"
       "\<exists>out. WriterExit t out \<in> set (new_events s sb)"
       "r = Inr () \<longrightarrow>
          calls (new_events s sb) = map (\<lambda>i. PutItem t i None) items @ [WriterExit t None]"
    by simp_all
  from assms b have
    h: "reraise_logged ''Couldn't put trades into %s.'' [Str (name t)] (r, sb) = (res, s')"
    by (simp add: archive_put_def)
  from reraise_logged_run [OF h p(1,2)] have
    l: "extends s s'" "handled res (new_events s s')" "res = r"
       "calls (new_events s s') = calls (new_events s sb)"
    by blast+
  from p(3) obtain out where "WriterExit t out \<in> set (new_events s sb)" ..
  then have "WriterExit t out \<in> set (calls (new_events s sb))"
    by (simp add: calls_def)
  with l(4) have "WriterExit t out \<in> set (calls (new_events s s'))" by simp
  then have "\<exists>out. WriterExit t out \<in> set (new_events s s')"
    by (auto simp: calls_def)
  with l p(4) show ?thesis by simp
qed

lemma archive_delete_run:
  assumes "archive_delete api t items s = (res, s')"
  shows "extends s s' \<and> handled res (new_events s s') \<and>
         (res = Inr () \<longrightarrow>
            (\<forall>item \<in> set items. map_of item ''notional'' \<noteq> None) \<and>
            calls (new_events s s') =
              map (\<lambda>item. DeleteItem t [(''notional'', the (map_of item ''notional''))] None) items
              @ [WriterExit t None])"
proof -
  let ?body = "and_then (with_batch_writer api t (delete_items api t items) s)
             (\<lambda>_ s'. (Inr (), emit (LogInfo ''Deleted trades from %s.'' [Str (name t)]) s'))"
  obtain r sb where b: "?body = (r, sb)" by (cases ?body)
  from delete_block_run [OF b] have
    p: "extends s sb" "faithful r (new_events s sb)"
       "r = Inr () \<longrightarrow>
          (\<forall>item \<in> set items. map_of item ''notional'' \<noteq> None) \<and>
          calls (new_events s sb) =
            map (\<lambda>item. DeleteItem t [(''notional'', the (map_of item ''notional''))] None) items
            @ [WriterExit t None]"
    by simp_all
  from assms b have
    h: "reraise_logged ''Couldn't delete trades from %s.'' [Str (name t)] (r, sb) = (res, s')"
    by (simp add: archive_delete_def)
  from reraise_logged_run [OF h p(1,2)] have
    l: "extends s s'" "handled res (new_events s s')" "res = r"
       "calls (new_events s s') = calls (new_events s sb)"
    by blast+
  with p(3) show ?thesis by simp
qed

lemma archive_trades_cases:
  assumes "archive_trades api tt items s = (res, s')"
  obtains
    (create_failed) e where
      "archive_create api tt s = (Inl e, s')" "res = Inl e"
  | (duplicates_failed) a s1 e where
      "archive_create api tt s = (Inr a, s1)"
      "archive_put_duplicates api a items s1 = (Inl e, s')" "res = Inl e"
  | (put_failed) a s1 s2 e where
      "archive_create api tt s = (Inr a, s1)"
      "archive_put_duplicates api a items s1 = (Inr (), s2)"
      "archive_put api a items s2 = (Inl e, s')" "res = Inl e"
  | (delete_failed) a s1 s2 s3 e where
      "archive_create api tt s = (Inr a, s1)"
      "archive_put_duplicates api a items s1 = (Inr (), s2)"
      "archive_put api a items s2 = (Inr (), s3)"
      "archive_delete api tt items s3 = (Inl e, s')" "res = Inl e"
  | (archived) a s1 s2 s3 where
      "archive_create api tt s = (Inr a, s1)"
      "archive_put_duplicates api a items s1 = (Inr (), s2)"
      "archive_put api a items s2 = (Inr (), s3)"
      "archive_delete api tt items s3 = (Inr (), s')" "res = Inr a"
  using assms
  by (auto simp: archive_trades_def and_then_def split: prod.splits sum.splits)


lemma failures_expected_log [simp]: "failure_of expected_log = []"
  by (simp add: expected_log_def)




lemmas ops_defs = create_table_def fill_table_def get_batch_data_def archive_trades_def
  archive_create_def archive_put_duplicates_def archive_put_def archive_delete_def and_then_def
  with_batch_writer_def reraise_logged_def sdk_call_def build_batch_keys_def subscript_def
  demo_table_def demo_trades_def duplicate_fails_def create_fails_def

section \<open>The claims about do_batch_get\<close>

text \<open>
  C1. In \<^verbatim>\<open>do_batch_get\<close> the durations slept between successive retries follow the
  sequence 1, 2, 4, 8, 16 capped at 32: the first sleep is 1 second and each later sleep is
  the minimum of twice the one before and 32. (The loop sleeps at most four times, so the
  durations slept are an initial part of 1, 2, 4, 8.)
\<close>

theorem backoff_sequence:
  assumes "do_batch_get api batch_keys s = (res, s')"
  shows "let sl = sleeps (new_events s s') in
           (sl \<noteq> [] \<longrightarrow> hd sl = 1) \<and>
           (\<forall>i. Suc i < length sl \<longrightarrow> sl ! Suc i = min (2 * sl ! i) 32) \<and>
           prefix sl [1, 2, 4, 8, 16]"
proof -
  from assms have "do_batch_get_loop api 0 1 batch_keys (init_retrieved batch_keys) s = (res, s')"
    by (simp add: do_batch_get_def)
  from loop_sleeps [OF this]
  obtain evs k where e: "trace s' = trace s @ evs" "sleeps evs = take k [1, 2, 4, 8]"
    unfolding schedule_start by blast
  have sl: "sleeps (new_events s s') \<in> {[], [1], [1, 2], [1, 2, 4], [1, 2, 4, 8]}"
    using e take_cases4 [of k "1::nat" "2::nat" "4::nat" "8::nat"]
    by (simp add: new_events_append)
  have rec: "\<forall>i. Suc i < length sl \<longrightarrow> sl ! Suc i = min (2 * sl ! i) 32"
    if "sl \<in> {[], [1], [1, 2], [1, 2, 4], [1, 2, 4, 8::nat]}" for sl
    using that by (auto simp: nth_Cons' less_Suc_eq)
  from sl rec [OF sl] show ?thesis
    by (auto simp: Let_def prefix_def)
qed

theorem backoff_sequence_witness:
  "sleeps (new_events start (snd (do_batch_get busy_api demo_keys start))) = [1, 2, 4, 8] \<and>
   hd [1, 2, 4, 8::nat] = 1 \<and> prefix [1, 2, 4, 8::nat] [1, 2, 4, 8, 16]"
proof -
  let ?run = "do_batch_get busy_api demo_keys start"
  have run: "?run = (fst ?run, snd ?run)" by simp
  have "sleeps (new_events start (snd ?run)) = [1, 2, 4, 8]"
    by (simp add: eval_defs obs_defs)
  with backoff_sequence [OF run] show ?thesis by (simp add: Let_def)
qed

text \<open>
  C2. When every response received reports at least one unprocessed key (and is well
  formed: it names only requested tables and its unprocessed keys can be counted),
  \<^verbatim>\<open>do_batch_get\<close> issues exactly 5 batch-get requests, returns, and does not sleep
  after the fifth request.
\<close>

theorem five_requests_when_never_done:
  assumes "do_batch_get api batch_keys s = (res, s')"
    and "\<forall>p \<in> set (gets (new_events s s')).
           well_formed (fst ` set batch_keys) (snd p) \<and> reports_unprocessed (snd p)"
  shows "length (gets (new_events s s')) = 5 \<and> (\<exists>r. res = Inr r) \<and>
         sleeps (after_request 5 (new_events s s')) = [] \<and>
         sleeps (new_events s s') = [1, 2, 4, 8]"
proof -
  note run = loop_start [OF assms(1)]
  from loop_exhaust [OF run] obtain evs where
    e: "trace s' = trace s @ evs" and
    x: "(\<forall>p \<in> set (gets evs). well_formed (fst ` set (init_retrieved batch_keys)) (snd p)
            \<and> reports_unprocessed (snd p))
         \<longrightarrow> length (gets evs) = max_tries - 0
            \<and> sleeps evs = schedule (max_tries - Suc 0) 1
            \<and> sleeps (after_request (max_tries - 0) evs) = []"
    by blast
  from e have n: "new_events s s' = evs" by (rule new_events_append)
  from x assms(2) n have
    "length (gets evs) = max_tries \<and> sleeps evs = schedule (max_tries - Suc 0) 1
       \<and> sleeps (after_request max_tries evs) = []"
    by (simp add: tables_init_retrieved)
  then have
    c: "length (gets evs) = 5" "sleeps evs = [1, 2, 4, 8]" "sleeps (after_request 5 evs) = []"
    unfolding schedule_start by (simp_all add: max_tries_def)
  have "0 < max_tries" by (simp add: max_tries_def)
  from loop_returns [OF run this] obtain evs' where
    e': "trace s' = trace s @ evs'" and g: "gets evs' \<noteq> []" and
    r: "well_formed (fst ` set (init_retrieved batch_keys)) (snd (last (gets evs')))
          \<longrightarrow> (\<exists>r. res = Inr r)"
    by blast
  from e e' have "evs' = evs" by simp
  with g have "last (gets evs) \<in> set (gets evs)" by simp
  with assms(2) n r \<open>evs' = evs\<close> have "\<exists>r. res = Inr r"
    by (simp add: tables_init_retrieved)
  with c n show ?thesis by simp
qed

theorem five_requests_witness:
  "length (gets (new_events start (snd (do_batch_get busy_api demo_keys start)))) = 5 \<and>
   sleeps (after_request 5 (new_events start (snd (do_batch_get busy_api demo_keys start)))) = [] \<and>
   (\<exists>r. fst (do_batch_get busy_api demo_keys start) = Inr r)"
proof -
  let ?run = "do_batch_get busy_api demo_keys start"
  have run: "?run = (fst ?run, snd ?run)" by simp
  have "\<forall>p \<in> set (gets (new_events start (snd ?run))).
          well_formed (fst ` set demo_keys) (snd p) \<and> reports_unprocessed (snd p)"
    by (simp add: eval_defs obs_defs)
  from five_requests_when_never_done [OF run this] show ?thesis by simp
qed

text \<open>
  C3. When the \<^verbatim>\<open>UnprocessedKeys\<close> of the first response is empty (no table is listed
  under it), \<^verbatim>\<open>do_batch_get\<close> makes exactly one batch-get request and does nothing
  else: the request is the only event of the call, so there is no sleep. It then returns,
  provided the response names only requested tables.
\<close>

theorem one_round_trip_when_done:
  assumes "batch_get_item api batch_keys (world s) = (Inr response, w)"
    and "UnprocessedKeys response = Some []"
    and "do_batch_get api batch_keys s = (res, s')"
  shows "new_events s s' = [BatchGetItem batch_keys (Inr response)] \<and>
         (names_within (fst ` set batch_keys) response \<longrightarrow> (\<exists>r. res = Inr r))"
proof -
  have w: "names_within (fst ` set batch_keys) response \<Longrightarrow>
             \<exists>r. collect_responses response (init_retrieved batch_keys) = Inr r"
    using collect_responses_ok [of "init_retrieved batch_keys" response]
    by (simp add: tables_init_retrieved)
  from assms(3) have "do_batch_get_loop api 0 1 batch_keys (init_retrieved batch_keys) s = (res, s')"
    by (rule loop_start)
  then have run: "(case collect_responses response (init_retrieved batch_keys) of
                     Inl e \<Rightarrow> (Inl e, emit (BatchGetItem batch_keys (Inr response)) (s\<lparr>world := w\<rparr>))
                   | Inr r \<Rightarrow> (Inr r, emit (BatchGetItem batch_keys (Inr response)) (s\<lparr>world := w\<rparr>)))
                  = (res, s')"
    using assms(1,2)
    by (simp add: do_batch_get_loop.simps [of _ 0] attempt_def Let_def max_tries_def
        split: sum.splits)
  show ?thesis
  proof (cases "collect_responses response (init_retrieved batch_keys)")
    case (Inl e)
    with run have "s' = emit (BatchGetItem batch_keys (Inr response)) (s\<lparr>world := w\<rparr>)"
      by simp
    moreover from Inl w have "\<not> names_within (fst ` set batch_keys) response"
      by auto
    ultimately show ?thesis
      by (simp add: new_events_def emit_def)
  next
    case (Inr r)
    with run have "res = Inr r" "s' = emit (BatchGetItem batch_keys (Inr response)) (s\<lparr>world := w\<rparr>)"
      by simp_all
    then show ?thesis
      by (simp add: new_events_def emit_def)
  qed
qed

theorem one_round_trip_witness:
  "do_batch_get done_api demo_keys start =
     (Inr [(''trades'', [[(''notional'', 1)], [(''notional'', 2)]]),
           (''entities'', [[(''float_value'', 3)]])],
      \<lparr>world = 1, trace = [BatchGetItem demo_keys (Inr done_response)]\<rparr>)"
proof -
  let ?run = "do_batch_get done_api demo_keys start"
  have run: "?run = (fst ?run, snd ?run)" by simp
  have call: "batch_get_item done_api demo_keys (world start) = (Inr done_response, 1)"
    by (simp add: eval_defs obs_defs)
  have u: "UnprocessedKeys done_response = Some []" by (simp add: done_response_def)
  from one_round_trip_when_done [OF call u run]
  have "new_events start (snd ?run) = [BatchGetItem demo_keys (Inr done_response)]" by simp
  then show ?thesis by (simp add: eval_defs obs_defs)
qed

text \<open>
  A response can report zero unprocessed keys and still list a table: under
  \<^verbatim>\<open>UnprocessedKeys\<close> it has a table with an empty list of \<^verbatim>\<open>Keys\<close>. The loop tests
  \<^verbatim>\<open>len(unprocessed) > 0\<close>, the number of tables, so it retries: answered five times
  with such a response, the call makes five requests and sleeps 1, 2, 4 and 8 seconds.
\<close>

theorem zero_keys_reported_retries:
  "pending empty_keys_response = Some 0 \<and>
   map snd (gets (new_events start (snd (do_batch_get empty_keys_api demo_keys start))))
     = replicate 5 (Inr empty_keys_response) \<and>
   sleeps (new_events start (snd (do_batch_get empty_keys_api demo_keys start))) = [1, 2, 4, 8]"
  by (simp add: eval_defs obs_defs empty_keys_api_def empty_keys_response_def numeral_eq_Suc)

text \<open>
  C4. The dictionary returned maps each requested table to exactly the items that the
  responses carried under that table's name, over all attempts and in the order received
  (the \<^verbatim>\<open>Responses\<close> of each response being a dictionary); no other table appears.
\<close>

theorem items_partitioned:
  assumes "do_batch_get api batch_keys s = (Inr r, s')"
    and "\<forall>p \<in> set (gets (new_events s s')). distinct_tables (snd p)"
  shows "map_of r t =
           (if t \<in> fst ` set batch_keys
            then Some (concat (map (\<lambda>p. items_for t (snd p)) (gets (new_events s s'))))
            else None)"
proof -
  from assms(1) have "do_batch_get_loop api 0 1 batch_keys (init_retrieved batch_keys) s = (Inr r, s')"
    by (simp add: do_batch_get_def)
  from loop_items [OF this] obtain evs where
    e: "trace s' = trace s @ evs" and
    i: "(\<forall>p \<in> set (gets evs). distinct_tables (snd p)) \<longrightarrow>
          (\<forall>t. map_of r t =
             map_option (\<lambda>v. v @ concat (map (\<lambda>p. items_for t (snd p)) (gets evs)))
               (map_of (init_retrieved batch_keys) t))"
    by blast
  from e have n: "new_events s s' = evs" by (rule new_events_append)
  with assms(2) i show ?thesis
    by (simp add: map_of_init_retrieved)
qed

theorem items_partitioned_witness:
  "fst (do_batch_get two_step_api demo_keys start) =
     Inr [(''trades'', [[(''notional'', 1)], [(''notional'', 2)]]),
          (''entities'', [[(''float_value'', 3)]])] \<and>
   concat (map (\<lambda>p. items_for ''trades'' (snd p))
     (gets (new_events start (snd (do_batch_get two_step_api demo_keys start)))))
     = [[(''notional'', 1)], [(''notional'', 2)]]"
proof -
  let ?run = "do_batch_get two_step_api demo_keys start"
  let ?r = "[(''trades'', [[(''notional'', 1)], [(''notional'', 2::nat)]]),
             (''entities'', [[(''float_value'', 3)]])]"
  have res: "fst ?run = Inr ?r"
    by (simp add: eval_defs obs_defs)
  then have run: "?run = (Inr ?r, snd ?run)"
    by (simp add: prod_eq_iff)
  have d: "\<forall>p \<in> set (gets (new_events start (snd ?run))). distinct_tables (snd p)"
    by (simp add: eval_defs obs_defs)
  have mem: "''trades'' \<in> fst ` set demo_keys"
    by (simp add: demo_keys_def)
  from items_partitioned [OF run d, of "''trades''"] mem
  have "concat (map (\<lambda>p. items_for ''trades'' (snd p)) (gets (new_events start (snd ?run))))
          = [[(''notional'', 1)], [(''notional'', 2)]]"
    by simp
  with res show ?thesis by simp
qed

text \<open>
  C7. When the retries are exhausted with unprocessed keys remaining (five requests were
  made and the fifth response still reports some), \<^verbatim>\<open>do_batch_get\<close> returns through
  the normal return path, and what it returns is the accumulator and nothing else: each
  requested table with the items received for it. The value carries no mark of
  incompleteness: every call that ends with a complete response and has received the same
  items returns the very same value, and there is such a call, answered completely at the
  first attempt.
\<close>

theorem exhausted_returns_like_success:
  assumes "do_batch_get api batch_keys s = (res, s')"
    and "length (gets (new_events s s')) = max_tries"
    and "reports_unprocessed (snd (last (gets (new_events s s'))))"
    and "well_formed (fst ` set batch_keys) (snd (last (gets (new_events s s'))))"
    and "\<forall>p \<in> set (gets (new_events s s')). distinct_tables (snd p)"
    and "distinct (map fst batch_keys)"
  shows "res = Inr (accumulator batch_keys (new_events s s')) \<and>
         (\<forall>api2 s2 res2 s2'.
            do_batch_get api2 batch_keys s2 = (res2, s2') \<and>
            complete (snd (last (gets (new_events s2 s2')))) \<and>
            well_formed (fst ` set batch_keys) (snd (last (gets (new_events s2 s2')))) \<and>
            (\<forall>p \<in> set (gets (new_events s2 s2')). distinct_tables (snd p)) \<and>
            (\<forall>t. received t (new_events s2 s2') = received t (new_events s s'))
            \<longrightarrow> res2 = res) \<and>
         do_batch_get
           (api\<lparr>batch_get_item :=
                  \<lambda>rq w. (Inr \<lparr>Responses = Some (accumulator batch_keys (new_events s s')),
                                UnprocessedKeys = Some []\<rparr>, w)\<rparr>)
           batch_keys s
         = (res,
            emit (BatchGetItem batch_keys
                    (Inr \<lparr>Responses = Some (accumulator batch_keys (new_events s s')),
                          UnprocessedKeys = Some []\<rparr>)) s)"
proof -
  have returns: "\<exists>r. res = Inr r"
    if "do_batch_get api batch_keys s = (res, s')"
      "well_formed (fst ` set batch_keys) (snd (last (gets (new_events s s'))))"
    for api s res s'
  proof -
    have "0 < max_tries" by (simp add: max_tries_def)
    from loop_returns [OF loop_start [OF that(1)] this] obtain evs where
      e: "trace s' = trace s @ evs" and
      w: "well_formed (fst ` set (init_retrieved batch_keys)) (snd (last (gets evs)))
            \<longrightarrow> (\<exists>r. res = Inr r)"
      by blast
    from e have "new_events s s' = evs" by (rule new_events_append)
    with w that(2) show ?thesis by (auto simp: tables_init_retrieved)
  qed
  let ?acc = "accumulator batch_keys (new_events s s')"
  from returns [OF assms(1,4)] obtain r where r: "res = Inr r" ..
  from loop_value [OF assms(1) [unfolded r] assms(5,6)] r have 1: "res = Inr ?acc" by simp
  have 2: "res2 = res"
    if "do_batch_get api2 batch_keys s2 = (res2, s2')"
      "well_formed (fst ` set batch_keys) (snd (last (gets (new_events s2 s2'))))"
      "\<forall>p \<in> set (gets (new_events s2 s2')). distinct_tables (snd p)"
      "\<And>t. received t (new_events s2 s2') = received t (new_events s s')"
    for api2 s2 res2 s2'
  proof -
    from returns [OF that(1,2)] obtain r2 where r2: "res2 = Inr r2" ..
    from loop_value [OF that(1) [unfolded r2] that(3) assms(6)]
    have "r2 = accumulator batch_keys (new_events s2 s2')" .
    with accumulator_cong [of "new_events s2 s2'" "new_events s s'" batch_keys] that(4) r2 1
    show ?thesis by simp
  qed
  have "map fst ?acc = map fst batch_keys" by (rule keys_accumulator)
  from collect_self [OF this assms(6)]
  have 3: "do_batch_get
             (api\<lparr>batch_get_item :=
                    \<lambda>rq w. (Inr \<lparr>Responses = Some ?acc, UnprocessedKeys = Some []\<rparr>, w)\<rparr>)
             batch_keys s
           = (Inr ?acc,
              emit (BatchGetItem batch_keys (Inr \<lparr>Responses = Some ?acc, UnprocessedKeys = Some []\<rparr>)) s)"
    by (simp add: do_batch_get_def do_batch_get_loop.simps [of _ 0] attempt_def Let_def
        max_tries_def collect_responses_def)
  from 1 2 3 show ?thesis by (intro conjI) (simp, blast, simp)
qed

theorem exhausted_returns_witness:
  "fst (do_batch_get busy_api demo_keys start) =
     Inr [(''trades'', replicate 5 [(''notional'', 1)]),
          (''entities'', replicate 5 [(''float_value'', 3)])] \<and>
   fst (do_batch_get served_api demo_keys start) = fst (do_batch_get busy_api demo_keys start)"
proof -
  let ?run = "do_batch_get busy_api demo_keys start"
  let ?run2 = "do_batch_get served_api demo_keys start"
  have run: "?run = (fst ?run, snd ?run)" by simp
  have run2: "?run2 = (fst ?run2, snd ?run2)" by simp
  have n: "length (gets (new_events start (snd ?run))) = max_tries"
    by (simp add: eval_defs obs_defs)
  have u: "reports_unprocessed (snd (last (gets (new_events start (snd ?run)))))"
    by (simp add: eval_defs obs_defs)
  have w: "well_formed (fst ` set demo_keys) (snd (last (gets (new_events start (snd ?run)))))"
    by (simp add: eval_defs obs_defs)
  have d: "\<forall>p \<in> set (gets (new_events start (snd ?run))). distinct_tables (snd p)"
    by (simp add: eval_defs obs_defs)
  have k: "distinct (map fst demo_keys)" by (simp add: demo_keys_def)
  have acc: "accumulator demo_keys (new_events start (snd ?run)) =
               [(''trades'', replicate 5 [(''notional'', 1)]),
                (''entities'', replicate 5 [(''float_value'', 3)])]"
    by (simp add: eval_defs obs_defs accumulator_def received_def numeral_eq_Suc)
  have c2: "complete (snd (last (gets (new_events start (snd ?run2)))))"
    by (simp add: eval_defs obs_defs served_api_def served_response_def complete_def)
  have w2: "well_formed (fst ` set demo_keys) (snd (last (gets (new_events start (snd ?run2)))))"
    by (simp add: eval_defs obs_defs served_api_def served_response_def)
  have d2: "\<forall>p \<in> set (gets (new_events start (snd ?run2))). distinct_tables (snd p)"
    by (simp add: eval_defs obs_defs served_api_def served_response_def)
  have r2: "\<forall>t. received t (new_events start (snd ?run2)) = received t (new_events start (snd ?run))"
    by (simp add: eval_defs obs_defs served_api_def served_response_def received_def
        numeral_eq_Suc)
  from exhausted_returns_like_success [OF run n u w d k] have
    1: "fst ?run = Inr (accumulator demo_keys (new_events start (snd ?run)))" and
    2: "\<forall>api2 s2 res2 s2'.
          do_batch_get api2 demo_keys s2 = (res2, s2') \<and>
          complete (snd (last (gets (new_events s2 s2')))) \<and>
          well_formed (fst ` set demo_keys) (snd (last (gets (new_events s2 s2')))) \<and>
          (\<forall>p \<in> set (gets (new_events s2 s2')). distinct_tables (snd p)) \<and>
          (\<forall>t. received t (new_events s2 s2') = received t (new_events start (snd ?run)))
          \<longrightarrow> res2 = fst ?run"
    by blast+
  from 2 run2 c2 w2 d2 r2 have "fst ?run2 = fst ?run" by blast
  with 1 acc show ?thesis by simp
qed

text \<open>
  C9. The dictionary returned by \<^verbatim>\<open>do_batch_get\<close> has the tables of
  \<^verbatim>\<open>batch_keys\<close> as its keys, all of them and no other (in the same order), also
  where nothing was retrieved for a table. The call does return when every outcome
  received is a well-formed response: it names only requested tables and carries its
  \<^verbatim>\<open>UnprocessedKeys\<close>.
\<close>

theorem result_has_requested_tables:
  assumes "do_batch_get api batch_keys s = (res, s')"
  shows "(\<forall>r. res = Inr r \<longrightarrow>
            map fst r = map fst batch_keys \<and> dom (map_of r) = fst ` set batch_keys) \<and>
         ((\<forall>p \<in> set (gets (new_events s s')). well_formed (fst ` set batch_keys) (snd p))
            \<longrightarrow> (\<exists>r. res = Inr r))"
proof -
  note run = loop_start [OF assms]
  have k: "map fst r = map fst batch_keys \<and> dom (map_of r) = fst ` set batch_keys"
    if "res = Inr r" for r
  proof -
    from run that have "map fst r = map fst (init_retrieved batch_keys)"
      using loop_keys by blast
    then have m: "map fst r = map fst batch_keys" by (simp add: keys_init_retrieved)
    then have "fst ` set r = fst ` set batch_keys" by (metis set_map)
    with m show ?thesis by (simp add: dom_map_of_conv_image_fst)
  qed
  have "0 < max_tries" by (simp add: max_tries_def)
  from loop_returns [OF run this] obtain evs where
    e: "trace s' = trace s @ evs" and g: "gets evs \<noteq> []" and
    r: "well_formed (fst ` set (init_retrieved batch_keys)) (snd (last (gets evs)))
          \<longrightarrow> (\<exists>r. res = Inr r)"
    by blast
  from e have n: "new_events s s' = evs" by (rule new_events_append)
  from g have "last (gets evs) \<in> set (gets evs)" by simp
  with r n have "(\<forall>p \<in> set (gets (new_events s s')). well_formed (fst ` set batch_keys) (snd p))
            \<longrightarrow> (\<exists>r. res = Inr r)"
    by (auto simp: tables_init_retrieved)
  with k show ?thesis by blast
qed

theorem result_tables_witness:
  "fst (do_batch_get (scripted never_fails [Inr \<lparr>Responses = None, UnprocessedKeys = Some []\<rparr>])
          demo_keys start) = Inr [(''trades'', []), (''entities'', [])] \<and>
   map fst [(''trades'', [] :: nat item list), (''entities'', [])] = map fst demo_keys"
proof -
  let ?run = "do_batch_get
     (scripted never_fails [Inr \<lparr>Responses = None, UnprocessedKeys = Some []\<rparr>]) demo_keys start"
  have run: "?run = (fst ?run, snd ?run)" by simp
  have res: "fst ?run = Inr [(''trades'', []), (''entities'', [])]"
    by (simp add: eval_defs obs_defs)
  have "\<forall>p \<in> set (gets (new_events start (snd ?run))). well_formed (fst ` set demo_keys) (snd p)"
    by (simp add: eval_defs obs_defs)
  with result_has_requested_tables [OF run] res show ?thesis
    by auto
qed

text \<open>
  C10. \<^verbatim>\<open>do_batch_get\<close> tolerates a response without \<^verbatim>\<open>Responses\<close> (it is read as
  empty), but reads \<^verbatim>\<open>UnprocessedKeys\<close> unconditionally: when the first response has
  no such entry the call raises KeyError instead of returning.
\<close>

theorem missing_unprocessed_keys_raises:
  assumes "batch_get_item api batch_keys (world s) = (Inr response, w)"
  shows "(UnprocessedKeys response = None \<longrightarrow>
            fst (do_batch_get api batch_keys s) = Inl KeyError) \<and>
         (Responses response = None \<and> UnprocessedKeys response = Some [] \<longrightarrow>
            do_batch_get api batch_keys s =
              (Inr (init_retrieved batch_keys),
               emit (BatchGetItem batch_keys (Inr response)) (s\<lparr>world := w\<rparr>)))"
proof -
  have "e = KeyError" if "collect ks rs retr = Inl e" for ks rs e retr
    using that by (induction ks arbitrary: retr) (auto split: option.splits)
  then have c: "e = KeyError" if "collect_responses response retr = Inl e" for e retr
    using that by (auto simp: collect_responses_def split: option.splits)
  show ?thesis
    using assms
    by (auto simp: do_batch_get_def do_batch_get_loop.simps [of _ 0] attempt_def Let_def
        max_tries_def split: sum.splits dest: c)
       (auto simp: collect_responses_def)
qed

theorem missing_unprocessed_keys_witness:
  "fst (do_batch_get truncated_api demo_keys start) = Inl KeyError"
proof -
  have call: "batch_get_item truncated_api demo_keys (world start) = (Inr truncated_response, 1)"
    by (simp add: eval_defs obs_defs)
  have "UnprocessedKeys truncated_response = None" by (simp add: truncated_response_def)
  with missing_unprocessed_keys_raises [OF call] show ?thesis by simp
qed

section \<open>The claim about the size of a batch\<close>




section \<open>The claims about error handling and archiving\<close>



text \<open>
  C8. In every successful execution of \<^verbatim>\<open>archive_trades\<close> the SDK calls are, in this
  order: the creation of the archive table, named after the source table with
  \<^verbatim>\<open>-archive\<close> appended and with its key schema, and the wait until it exists; the
  calls of the first put loop (puts of trades into the archive table and the exit of its
  writer); the put of every item of \<^verbatim>\<open>trade_data\<close> into the archive table, in order,
  and the exit of the writer; then the delete of every item's key from the source table
  and the exit of that writer. The table returned is the one the creation returned.
\<close>

theorem archive_order:
  assumes "archive_trades api trade_table trade_data s = (Inr archive_table, s')"
  shows "TableName (archive_spec trade_table) = name trade_table @ ''-archive'' \<and>
         KeySchema (archive_spec trade_table) = key_schema trade_table \<and>
         (\<exists>first.
            calls (new_events s s') =
              [CreateTable (archive_spec trade_table) (Inr archive_table),
               WaitUntilExists archive_table None]
              @ first
              @ map (\<lambda>item. PutItem archive_table item None) trade_data
              @ [WriterExit archive_table None]
              @ map (\<lambda>item. DeleteItem trade_table
                               [(''notional'', the (map_of item ''notional''))] None) trade_data
              @ [WriterExit trade_table None] \<and>
            (\<forall>e \<in> set first.
               (\<exists>item out. e = PutItem archive_table item out \<and> item \<in> set trade_data) \<or>
               (\<exists>out. e = WriterExit archive_table out)))"
  using assms
proof (cases rule: archive_trades_cases)
  case (archived a s1 s2 s3)
  then have a: "a = archive_table" by simp
  from archive_create_run [OF archived(1)] have
    1: "extends s s1"
       "calls (new_events s s1) = [CreateTable (archive_spec trade_table) (Inr a), WaitUntilExists a None]"
    by simp_all
  from archive_put_duplicates_run [OF archived(2)] have
    2: "extends s1 s2"
       "\<forall>e \<in> set (calls (new_events s1 s2)).
            (\<exists>i out. e = PutItem a i out \<and> i \<in> set trade_data) \<or> (\<exists>out. e = WriterExit a out)"
    by simp_all
  from archive_put_run [OF archived(3)] have
    3: "extends s2 s3"
       "calls (new_events s2 s3) = map (\<lambda>i. PutItem a i None) trade_data @ [WriterExit a None]"
    by simp_all
  from archive_delete_run [OF archived(4)] have
    4: "extends s3 s'"
       "calls (new_events s3 s') =
          map (\<lambda>item. DeleteItem trade_table [(''notional'', the (map_of item ''notional''))] None)
            trade_data @ [WriterExit trade_table None]"
    by simp_all
  note e12 = extends_trans [OF 1(1) 2(1)]
  note e13 = extends_trans [OF e12 3(1)]
  have "new_events s s' =
          new_events s s1 @ new_events s1 s2 @ new_events s2 s3 @ new_events s3 s'"
    using new_events_trans [OF 1(1) 2(1)] new_events_trans [OF e12 3(1)]
      new_events_trans [OF e13 4(1)] by simp
  then have "calls (new_events s s') =
          calls (new_events s s1) @ calls (new_events s1 s2) @ calls (new_events s2 s3)
          @ calls (new_events s3 s')"
    by simp
  with 1(2) 3(2) 4(2) a have c: "calls (new_events s s') =
              [CreateTable (archive_spec trade_table) (Inr archive_table),
               WaitUntilExists archive_table None]
              @ calls (new_events s1 s2)
              @ map (\<lambda>item. PutItem archive_table item None) trade_data
              @ [WriterExit archive_table None]
              @ map (\<lambda>item. DeleteItem trade_table
                               [(''notional'', the (map_of item ''notional''))] None) trade_data
              @ [WriterExit trade_table None]"
    by simp
  have n: "TableName (archive_spec trade_table) = name trade_table @ ''-archive''"
    "KeySchema (archive_spec trade_table) = key_schema trade_table"
    by (simp_all add: archive_spec_def)
  from 2(2) a have f: "\<forall>e \<in> set (calls (new_events s1 s2)).
               (\<exists>item out. e = PutItem archive_table item out \<and> item \<in> set trade_data) \<or>
               (\<exists>out. e = WriterExit archive_table out)"
    by simp
  from c f have "\<exists>first.
            calls (new_events s s') =
              [CreateTable (archive_spec trade_table) (Inr archive_table),
               WaitUntilExists archive_table None]
              @ first
              @ map (\<lambda>item. PutItem archive_table item None) trade_data
              @ [WriterExit archive_table None]
              @ map (\<lambda>item. DeleteItem trade_table
                               [(''notional'', the (map_of item ''notional''))] None) trade_data
              @ [WriterExit trade_table None] \<and>
            (\<forall>e \<in> set first.
               (\<exists>item out. e = PutItem archive_table item out \<and> item \<in> set trade_data) \<or>
               (\<exists>out. e = WriterExit archive_table out))"
    by (intro exI [of _ "calls (new_events s1 s2)"] conjI) assumption+
  with n show ?thesis by (intro conjI)
qed simp_all

theorem archive_order_witness:
  "fst (archive_trades (scripted never_fails []) (demo_table ''trades'' ''notional'')
          demo_trades start)
     = Inr \<lparr>name = ''trades-archive'', key_schema = [(''notional'', ''HASH'')],
            attribute_definitions = [(''notional'', ''S'')],
            provisioned_throughput = \<lparr>ReadCapacityUnits = 10, WriteCapacityUnits = 10\<rparr>\<rparr> \<and>
   TableName (archive_spec (demo_table ''trades'' ''notional'')) = ''trades-archive''"
proof -
  let ?run = "archive_trades (scripted never_fails [] :: (nat, nat) sdk)
                (demo_table ''trades'' ''notional'') demo_trades start"
  let ?a = "\<lparr>name = ''trades-archive'', key_schema = [(''notional'', ''HASH'')],
            attribute_definitions = [(''notional'', ''S'')],
            provisioned_throughput = \<lparr>ReadCapacityUnits = 10, WriteCapacityUnits = 10\<rparr>\<rparr>"
  have res: "fst ?run = Inr ?a"
    by (simp add: ops_defs eval_defs)
  then have run: "?run = (Inr ?a, snd ?run)" by (simp add: prod_eq_iff)
  from archive_order [OF run] have
    "TableName (archive_spec (demo_table ''trades'' ''notional''))
       = name (demo_table ''trades'' ''notional'') @ ''-archive''"
    by blast
  with res show ?thesis by (simp add: demo_table_def)
qed

end
